theory Spec2Isabelle
  imports Complex_Main
begin

section \<open>Strings as the script uses them\<close>

text \<open>
  The script \<^verbatim>\<open>code/profile.py\<close> works on Python strings. A string is modelled as a
  \<^typ>\<open>string\<close>, one \<^typ>\<open>char\<close> for each code point (code points below 256).
\<close>

text \<open>\<^verbatim>\<open>str(n)\<close> and the \<^verbatim>\<open>{n}\<close> of an f-string, for a natural number: its decimal digits.\<close>

definition digit_char :: "nat \<Rightarrow> char" where
  "digit_char d = ''0123456789'' ! d"

fun str_nat :: "nat \<Rightarrow> string" where
  "str_nat n = (if n < 10 then [digit_char n] else str_nat (n div 10) @ [digit_char (n mod 10)])"

declare str_nat.simps [simp del]

text \<open>
  \<^verbatim>\<open>s.split(sep)\<close> for a separator that is not empty (the script splits at literals only):
  the pieces between the occurrences of \<open>sep\<close>, found from the left without overlap.
  \<open>cur\<close> is the piece being read.
\<close>

function split_from :: "string \<Rightarrow> string \<Rightarrow> string \<Rightarrow> string list" where
  "split_from sep cur [] = [cur]"
| "split_from sep cur (c # cs) =
     (if sep \<noteq> [] \<and> take (length sep) (c # cs) = sep
      then cur # split_from sep [] (drop (length sep) (c # cs))
      else split_from sep (cur @ [c]) cs)"
  by pat_completeness auto
termination
  by (relation "measure (\<lambda>(sep, cur, s). length s)") auto

definition py_split :: "string \<Rightarrow> string \<Rightarrow> string list" where
  "py_split s sep = split_from sep [] s"

text \<open>\<^verbatim>\<open>s.strip()\<close>: white space is what \<^verbatim>\<open>str.isspace\<close> accepts among the code points below 256.\<close>

definition is_space :: "char \<Rightarrow> bool" where
  "is_space c \<longleftrightarrow> (of_char c :: nat) \<in> {9, 10, 11, 12, 13, 28, 29, 30, 31, 32, 133, 160}"

definition strip :: "string \<Rightarrow> string" where
  "strip s = rev (dropWhile is_space (rev (dropWhile is_space s)))"

text \<open>\<^verbatim>\<open>s.rfind(c)\<close> for a single character: the highest index of \<open>c\<close> in \<open>s\<close>, or \<open>-1\<close>.\<close>

fun rfind :: "string \<Rightarrow> char \<Rightarrow> int" where
  "rfind [] c = - 1"
| "rfind (x # xs) c =
     (let r = rfind xs c in if 0 \<le> r then r + 1 else if x = c then 0 else - 1)"

section \<open>Paths (\<^verbatim>\<open>os.path\<close> on POSIX)\<close>

text \<open>
  \<^verbatim>\<open>os.path.splitext\<close>: the extension starts at the last dot of the last component, unless
  that component has only dots before it.
\<close>

definition splitext :: "string \<Rightarrow> string \<times> string" where
  "splitext p =
     (let sepIndex = rfind p (CHR ''/'');
          dotIndex = rfind p (CHR ''.'')
      in if sepIndex < dotIndex \<and>
            list_ex (\<lambda>c. c \<noteq> CHR ''.'')
              (take (nat (dotIndex - (sepIndex + 1))) (drop (nat (sepIndex + 1)) p))
         then (take (nat dotIndex) p, drop (nat dotIndex) p)
         else (p, []))"

definition basename :: "string \<Rightarrow> string" where
  "basename p = drop (nat (rfind p (CHR ''/'') + 1)) p"

text \<open>\<^verbatim>\<open>os.path.join\<close>, one component at a time.\<close>

definition path_join2 :: "string \<Rightarrow> string \<Rightarrow> string" where
  "path_join2 path b =
     (if b \<noteq> [] \<and> hd b = CHR ''/'' then b
      else if path = [] \<or> last path = CHR ''/'' then path @ b
      else path @ ''/'' @ b)"

definition path_join :: "string \<Rightarrow> string list \<Rightarrow> string" where
  "path_join a ps = foldl path_join2 a ps"

section \<open>The file system\<close>

text \<open>
  The files and directories below the working directory: an association list from
  resolved paths (lists of names) to nodes, the latest entry first. A path string is
  resolved name by name from the working directory, which has no parent here; empty names
  and \<^verbatim>\<open>.\<close> stay in place and \<^verbatim>\<open>..\<close> steps back, as in a tree without symbolic links
  where every name passed through is a directory. Permissions, quotas and limits on the
  length of names are left out: a write fails only where the tree itself forbids it.
\<close>

datatype node = Dir | File string

type_synonym filesystem = "(string list \<times> node) list"

fun walk_components :: "string list \<Rightarrow> string list \<Rightarrow> string list" where
  "walk_components cur [] = cur"
| "walk_components cur (c # cs) =
     (if c = [] \<or> c = ''.'' then walk_components cur cs
      else if c = ''..'' then walk_components (butlast cur) cs
      else walk_components (cur @ [c]) cs)"

definition resolve :: "string \<Rightarrow> string list" where
  "resolve p = walk_components [] (py_split p ''/'')"

definition node_at :: "filesystem \<Rightarrow> string list \<Rightarrow> node option" where
  "node_at fs k = (if k = [] then Some Dir else map_of fs k)"

text \<open>\<^verbatim>\<open>os.path.exists\<close>.\<close>

definition path_exists :: "filesystem \<Rightarrow> string \<Rightarrow> bool" where
  "path_exists fs p \<longleftrightarrow> p \<noteq> [] \<and> node_at fs (resolve p) \<noteq> None"

text \<open>
  \<^verbatim>\<open>os.makedirs(p)\<close>: every missing directory on the way is created; it fails when \<open>p\<close>
  is there already or a file is in the way.
\<close>

fun make_path :: "filesystem \<Rightarrow> string list \<Rightarrow> string list \<Rightarrow> filesystem option" where
  "make_path fs cur [] = Some fs"
| "make_path fs cur (c # cs) =
     (case node_at fs (cur @ [c]) of
        None \<Rightarrow> make_path ((cur @ [c], Dir) # fs) (cur @ [c]) cs
      | Some Dir \<Rightarrow> make_path fs (cur @ [c]) cs
      | Some (File data) \<Rightarrow> None)"

definition makedirs :: "filesystem \<Rightarrow> string \<Rightarrow> filesystem option" where
  "makedirs fs p =
     (if p = [] \<or> node_at fs (resolve p) \<noteq> None then None else make_path fs [] (resolve p))"

text \<open>
  \<^verbatim>\<open>with open(p, "w") as f: f.write(data)\<close> (and \<^verbatim>\<open>"wb"\<close>): the file is created or
  replaced; it fails when \<open>p\<close> is a directory or the directory it lies in is missing.
\<close>

definition write_file :: "filesystem \<Rightarrow> string \<Rightarrow> string \<Rightarrow> filesystem option" where
  "write_file fs p data =
     (let k = resolve p
      in if p = [] \<or> k = [] \<or> node_at fs k = Some Dir \<or> node_at fs (butlast k) \<noteq> Some Dir then None
         else Some ((k, File data) # fs))"

definition read_file :: "filesystem \<Rightarrow> string \<Rightarrow> string option" where
  "read_file fs p =
     (case node_at fs (resolve p) of Some (File data) \<Rightarrow> if p = [] then None else Some data | _ \<Rightarrow> None)"

section \<open>File names\<close>

text \<open>The character class of the regular expression in \<^verbatim>\<open>sanitize_filename\<close>.\<close>

definition forbidden_chars :: "char set" where
  "forbidden_chars =
     {CHR ''<'', CHR ''>'', CHR '':'', CHR 0x22, CHR ''/'', CHR 0x5C, CHR ''|'', CHR ''?'', CHR ''*''}"

text \<open>\<^verbatim>\<open>re.sub(r'[...]', '_', s)\<close>: one scan from the left, each match of the class replaced.\<close>

primrec re_sub_class :: "char set \<Rightarrow> char \<Rightarrow> string \<Rightarrow> string" where
  "re_sub_class cls r [] = []"
| "re_sub_class cls r (c # cs) = (if c \<in> cls then r else c) # re_sub_class cls r cs"

definition sanitize_filename :: "string \<Rightarrow> string" where
  "sanitize_filename filename =
     (let filename = re_sub_class forbidden_chars (CHR ''_'') filename
      in take 255 filename)"

subsection \<open>Facts about names, needed for the loop of \<^verbatim>\<open>ensure_unique_filename\<close> to end\<close>

lemma rfind_bounds: "- 1 \<le> rfind s c \<and> rfind s c < int (length s)"
  by (induction s) (auto simp: Let_def)

lemma rfind_after: "c \<notin> set (drop (nat (rfind s c + 1)) s)"
proof (induction s)
  case Nil
  then show ?case by simp
next
  case (Cons x xs)
  show ?case
  proof (cases "0 \<le> rfind xs c")
    case True
    then have "nat (rfind xs c + 1 + 1) = Suc (nat (rfind xs c + 1))" by simp
    with True Cons show ?thesis by (simp add: Let_def)
  next
    case False
    with rfind_bounds[of xs c] have "rfind xs c = - 1" by simp
    with Cons show ?thesis by (auto simp: Let_def)
  qed
qed

lemma splitext_ext_no_sep: "CHR ''/'' \<notin> set (snd (splitext p))"
proof (cases "rfind p (CHR ''/'') < rfind p (CHR ''.'')")
  case True
  then have "nat (rfind p (CHR ''/'') + 1) \<le> nat (rfind p (CHR ''.''))" by simp
  then have "set (drop (nat (rfind p (CHR ''.''))) p) \<subseteq> set (drop (nat (rfind p (CHR ''/'') + 1)) p)"
    by (rule set_drop_subset_set_drop)
  with rfind_after[of "CHR ''/''" p] show ?thesis
    by (auto simp: splitext_def Let_def)
next
  case False
  then show ?thesis by (simp add: splitext_def Let_def)
qed

lemma digit_char_inj: "a < 10 \<Longrightarrow> b < 10 \<Longrightarrow> digit_char a = digit_char b \<Longrightarrow> a = b"
  unfolding digit_char_def
  by (subst (asm) nth_eq_iff_index_eq) simp_all

lemma str_nat_nonempty: "str_nat n \<noteq> []"
  by (subst str_nat.simps) simp

lemma digit_char_not_sep: "d < 10 \<Longrightarrow> CHR ''/'' \<noteq> digit_char d"
proof -
  assume "d < 10"
  then have "d \<in> {0, 1, 2, 3, 4, 5, 6, 7, 8, 9}" by auto
  then show ?thesis by (auto simp: digit_char_def)
qed

lemma str_nat_no_sep: "CHR ''/'' \<notin> set (str_nat n)"
proof (induction n rule: str_nat.induct)
  case (1 n)
  show ?case
  proof (cases "n < 10")
    case True
    then show ?thesis by (simp add: str_nat.simps[of n] digit_char_not_sep)
  next
    case False
    with 1 show ?thesis by (simp add: str_nat.simps[of n] digit_char_not_sep)
  qed
qed

lemma split_from_nonempty: "split_from sep cur s \<noteq> []"
  by (induction sep cur s rule: split_from.induct) auto

lemma split_from_no_sep: "d \<notin> set s \<Longrightarrow> split_from [d] cur s = [cur @ s]"
  by (induction s arbitrary: cur) auto

lemma split_from_append:
  "d \<notin> set t \<Longrightarrow>
     split_from [d] cur (s @ t) = butlast (split_from [d] cur s) @ [last (split_from [d] cur s) @ t]"
proof (induction s arbitrary: cur)
  case Nil
  then show ?case by (simp add: split_from_no_sep)
next
  case (Cons x xs)
  then show ?case by (simp add: split_from_nonempty)
qed

lemma walk_components_append:
  "walk_components cur (xs @ ys) = walk_components (walk_components cur xs) ys"
  by (induction xs arbitrary: cur) auto

lemma resolve_append:
  assumes "CHR ''/'' \<notin> set t"
    and "last (py_split pre ''/'') @ t \<notin> {[], ''.'', ''..''}"
  shows "resolve (pre @ t) =
           walk_components [] (butlast (py_split pre ''/'')) @ [last (py_split pre ''/'') @ t]"
  using assms by (simp add: resolve_def py_split_def split_from_append walk_components_append)

text \<open>The name \<^verbatim>\<open>f"{base}_duplicate{counter}{ext}"\<close>.\<close>

definition duplicate_name :: "string \<Rightarrow> string \<Rightarrow> nat \<Rightarrow> string" where
  "duplicate_name base ext counter = base @ ''_duplicate'' @ str_nat counter @ ext"

lemma str_nat_inj: "str_nat m = str_nat n \<Longrightarrow> m = n"
proof (induction m arbitrary: n rule: str_nat.induct)
  case (1 m)
  show ?case
  proof (cases "m < 10")
    case True
    note m = this
    show ?thesis
    proof (cases "n < 10")
      case True
      with m "1.prems" show ?thesis
        by (simp add: str_nat.simps[of m] str_nat.simps[of n] digit_char_inj)
    next
      case False
      with m "1.prems" str_nat_nonempty[of "n div 10"] show ?thesis
        by (simp add: str_nat.simps[of m] str_nat.simps[of n])
    qed
  next
    case False
    note m = this
    show ?thesis
    proof (cases "n < 10")
      case True
      with m "1.prems" str_nat_nonempty[of "m div 10"] show ?thesis
        by (simp add: str_nat.simps[of m] str_nat.simps[of n])
    next
      case False
      with m "1.prems" have e: "str_nat (m div 10) = str_nat (n div 10)"
        and d: "digit_char (m mod 10) = digit_char (n mod 10)"
        by (simp_all add: str_nat.simps[of m] str_nat.simps[of n])
      from "1.IH"[OF m e] have "m div 10 = n div 10" .
      moreover from d have "m mod 10 = n mod 10"
        by (intro digit_char_inj) simp_all
      ultimately show ?thesis
        by (metis div_mult_mod_eq)
    qed
  qed
qed

lemma duplicate_name_base: "duplicate_name base ext j = base @ duplicate_name [] ext j"
  by (simp add: duplicate_name_def)

lemma duplicate_name_hd: "duplicate_name [] ext j = CHR ''_'' # tl (duplicate_name [] ext j)"
  by (simp add: duplicate_name_def)

lemma duplicate_name_no_sep: "CHR ''/'' \<notin> set ext \<Longrightarrow> CHR ''/'' \<notin> set (duplicate_name [] ext j)"
  by (simp add: duplicate_name_def str_nat_no_sep)

lemma duplicate_name_inj: "duplicate_name [] ext i = duplicate_name [] ext j \<Longrightarrow> i = j"
  by (simp add: duplicate_name_def str_nat_inj)

lemma not_special_name: "c \<in> set xs \<Longrightarrow> c \<noteq> CHR ''.'' \<Longrightarrow> xs \<notin> {[], ''.'', ''..''}"
  by auto

lemma duplicate_name_not_special: "l @ duplicate_name [] ext j \<notin> {[], ''.'', ''..''}"
proof -
  have mem: "CHR ''_'' \<in> set (l @ duplicate_name [] ext j)"
    by (subst duplicate_name_hd) simp
  then show ?thesis
    by (rule not_special_name) simp
qed

lemma path_join2_duplicate_name:
  "\<exists>pre. \<forall>j. path_join2 path (duplicate_name base ext j) = pre @ duplicate_name [] ext j"
proof (cases "base \<noteq> [] \<and> hd base = CHR ''/''")
  case True
  then have "\<forall>j. path_join2 path (duplicate_name base ext j) = base @ duplicate_name [] ext j"
    by (simp add: path_join2_def duplicate_name_def)
  then show ?thesis by blast
next
  case False
  then have nohd: "\<And>j. hd (duplicate_name base ext j) \<noteq> CHR ''/''"
    by (cases base) (simp_all add: duplicate_name_def)
  show ?thesis
  proof (cases "path = [] \<or> last path = CHR ''/''")
    case True
    with nohd have "\<forall>j. path_join2 path (duplicate_name base ext j) = (path @ base) @ duplicate_name [] ext j"
      by (simp add: path_join2_def duplicate_name_def)
    then show ?thesis by blast
  next
    case False
    with nohd have "\<forall>j. path_join2 path (duplicate_name base ext j) = (path @ ''/'' @ base) @ duplicate_name [] ext j"
      by (simp add: path_join2_def duplicate_name_def)
    then show ?thesis by blast
  qed
qed

lemma finite_duplicate_names:
  assumes ext: "CHR ''/'' \<notin> set ext"
  shows "finite {j. path_exists fs (path_join2 path (duplicate_name base ext j))}"
proof -
  obtain pre where pre: "\<And>j. path_join2 path (duplicate_name base ext j) = pre @ duplicate_name [] ext j"
    using path_join2_duplicate_name by blast
  define W where "W = walk_components [] (butlast (py_split pre ''/''))"
  define l where "l = last (py_split pre ''/'')"
  define key where "key j = W @ [l @ duplicate_name [] ext j]" for j
  have res: "resolve (pre @ duplicate_name [] ext j) = key j" for j
    unfolding key_def W_def l_def
    by (rule resolve_append) (simp_all only: duplicate_name_no_sep[OF ext] duplicate_name_not_special not_False_eq_True)
  have "inj key"
    by (auto simp: inj_def key_def dest: duplicate_name_inj)
  then have "finite (key -` dom (map_of fs))"
    by (intro finite_vimageI finite_dom_map_of)
  moreover have "{j. path_exists fs (path_join2 path (duplicate_name base ext j))} \<subseteq> key -` dom (map_of fs)"
  proof
    fix j
    assume "j \<in> {j. path_exists fs (path_join2 path (duplicate_name base ext j))}"
    then have "node_at fs (key j) \<noteq> None"
      by (simp add: path_exists_def pre res)
    moreover have "key j \<noteq> []" by (simp add: key_def)
    ultimately show "j \<in> key -` dom (map_of fs)"
      by (auto simp: node_at_def)
  qed
  ultimately show ?thesis by (rule rev_finite_subset)
qed

text \<open>
  \<^verbatim>\<open>ensure_unique_filename(path, filename)\<close>. The loop tries \<open>new_filename\<close> and then the
  names with counters 1, 2, ...; it ends because the file system holds finitely many names
  and the candidates differ from each other.
\<close>

function ensure_unique_loop :: "filesystem \<Rightarrow> string \<Rightarrow> string \<Rightarrow> string \<Rightarrow> nat \<Rightarrow> string" where
  "ensure_unique_loop fs path filename new_filename counter =
     (let (base, ext) = splitext filename
      in if path_exists fs (path_join2 path new_filename)
         then ensure_unique_loop fs path filename (duplicate_name base ext counter) (counter + 1)
         else new_filename)"
  by pat_completeness auto
termination
proof (relation "measure (\<lambda>(fs, path, filename, new_filename, counter).
    (if path_exists fs (path_join2 path new_filename) then 1 else 0) +
    card {j. counter \<le> j \<and>
      path_exists fs (path_join2 path (duplicate_name (fst (splitext filename)) (snd (splitext filename)) j))})")
  show "wf (measure (\<lambda>(fs, path, filename, new_filename, counter).
    (if path_exists fs (path_join2 path new_filename) then 1 else 0) +
    card {j. counter \<le> j \<and>
      path_exists fs (path_join2 path (duplicate_name (fst (splitext filename)) (snd (splitext filename)) j))}))"
    by simp
next
  fix fs :: filesystem and path filename new_filename :: string and counter :: nat and x :: "string \<times> string" and base ext :: string
  assume x: "x = splitext filename" and be: "(base, ext) = x"
    and ex: "path_exists fs (path_join2 path new_filename)"
  let ?E = "\<lambda>j. path_exists fs (path_join2 path (duplicate_name base ext j))"
  from x be have b: "fst (splitext filename) = base" and e: "snd (splitext filename) = ext"
    by (metis fst_conv, metis snd_conv)
  have "CHR ''/'' \<notin> set ext"
    using splitext_ext_no_sep[of filename] e by simp
  then have fin: "finite {j. ?E j}"
    by (rule finite_duplicate_names)
  then have fin1: "finite {j. counter \<le> j \<and> ?E j}" and fin2: "finite {j. counter + 1 \<le> j \<and> ?E j}"
    by (auto elim: rev_finite_subset)
  have split: "{j. counter \<le> j \<and> ?E j} = (if ?E counter then {counter} else {}) \<union> {j. counter + 1 \<le> j \<and> ?E j}"
    by (auto simp: Suc_le_eq le_less)
  have "(if ?E counter then 1 else 0) + card {j. counter + 1 \<le> j \<and> ?E j} = card {j. counter \<le> j \<and> ?E j}"
  proof (cases "?E counter")
    case True
    then have "{j. counter \<le> j \<and> ?E j} = insert counter {j. counter + 1 \<le> j \<and> ?E j}"
      using split by auto
    moreover have "counter \<notin> {j. counter + 1 \<le> j \<and> ?E j}" by simp
    ultimately show ?thesis using fin2 True by simp
  next
    case False
    then have "{j. counter \<le> j \<and> ?E j} = {j. counter + 1 \<le> j \<and> ?E j}"
      using split by auto
    with False show ?thesis by simp
  qed
  with ex show "((fs, path, filename, duplicate_name base ext counter, counter + 1),
         (fs, path, filename, new_filename, counter)) \<in> measure (\<lambda>(fs, path, filename, new_filename, counter).
    (if path_exists fs (path_join2 path new_filename) then 1 else 0) +
    card {j. counter \<le> j \<and>
      path_exists fs (path_join2 path (duplicate_name (fst (splitext filename)) (snd (splitext filename)) j))})"
    by (simp add: b e)
qed


declare ensure_unique_loop.simps [simp del]

definition ensure_unique_filename :: "filesystem \<Rightarrow> string \<Rightarrow> string \<Rightarrow> string" where
  "ensure_unique_filename fs path filename = ensure_unique_loop fs path filename filename 1"

section \<open>Post summaries and the post filter\<close>

text \<open>The dictionary built by \<^verbatim>\<open>extract_post_info\<close>; its five keys are always set.\<close>

record post_info =
  link :: string
  title :: string
  attachments :: string
  date :: string
  image :: string

text \<open>The keys of \<^verbatim>\<open>profileconfig.json\<close> the script reads, as truth values.\<close>

record config =
  both :: bool
  files_only :: bool
  no_files :: bool
  save_info_txt :: bool
  download_attachments :: bool
  download_videos :: bool

definition has_media :: "post_info \<Rightarrow> bool" where
  "has_media post \<longleftrightarrow>
     image post \<noteq> ''No image available'' \<or> attachments post \<noteq> ''No attachments''"

text \<open>
  The loop over \<^verbatim>\<open>all_posts\<close> that fills \<^verbatim>\<open>filtered_posts\<close>; the second argument is the
  list built so far.
\<close>

fun filter_loop :: "config \<Rightarrow> post_info list \<Rightarrow> post_info list \<Rightarrow> post_info list" where
  "filter_loop cfg filtered_posts [] = filtered_posts"
| "filter_loop cfg filtered_posts (post # rest) =
     (if both cfg then filter_loop cfg (filtered_posts @ [post]) rest
      else if files_only cfg \<and> has_media post then filter_loop cfg (filtered_posts @ [post]) rest
      else if no_files cfg \<and> \<not> has_media post then filter_loop cfg (filtered_posts @ [post]) rest
      else filter_loop cfg filtered_posts rest)"

definition filter_posts :: "config \<Rightarrow> post_info list \<Rightarrow> post_info list" where
  "filter_posts cfg all_posts = filter_loop cfg [] all_posts"

section \<open>Exceptions, documents and the network\<close>

text \<open>
  The exceptions the script can raise and does not catch, and those of \<^verbatim>\<open>requests\<close>,
  which it catches. \<^verbatim>\<open>OSError\<close> stands for its subclasses too.
\<close>

datatype py_error = TypeError | KeyError | IndexError | ValueError | AttributeError | OSError

datatype request_error = ChunkedEncodingError | RequestException

text \<open>
  \<^verbatim>\<open>session.get(url, ...)\<close> followed by \<^verbatim>\<open>raise_for_status()\<close>: the body of the response,
  or the exception raised once the retries of the session are used up.
\<close>

datatype http_result = Raises request_error | Response string

text \<open>An element of a parsed page: its text and its attributes.\<close>

record tag =
  tag_text :: string
  tag_attrs :: "(string \<times> string) list"

text \<open>\<^verbatim>\<open>tag[key]\<close>.\<close>

definition tag_get :: "tag \<Rightarrow> string \<Rightarrow> py_error + string" where
  "tag_get t key = (case map_of (tag_attrs t) key of None \<Rightarrow> Inl KeyError | Some v \<Rightarrow> Inr v)"

text \<open>\<^verbatim>\<open>found[key]\<close> where \<open>found\<close> is the result of a \<^verbatim>\<open>find\<close>, \<^verbatim>\<open>None\<close> when nothing matched.\<close>

definition find_get :: "tag option \<Rightarrow> string \<Rightarrow> py_error + string" where
  "find_get found key = (case found of None \<Rightarrow> Inl TypeError | Some t \<Rightarrow> tag_get t key)"

text \<open>
  A post card of a listing page, as the searches of \<^verbatim>\<open>extract_post_info\<close> see it: the
  first \<^verbatim>\<open>a\<close>, the header, the \<^verbatim>\<open>div\<close> whose text mentions attachments, the first
  \<^verbatim>\<open>time\<close> and the card's image.
\<close>

record post_card =
  card_a :: "tag option"
  card_header :: "tag option"
  card_attachments_div :: "tag option"
  card_time :: "tag option"
  card_image :: "tag option"

text \<open>
  A parsed page, as the searches of the script see it: the first \<^verbatim>\<open>small\<close> element and
  the post cards (listing pages); the author link, the \<^verbatim>\<open>og:image\<close> and \<^verbatim>\<open>id\<close> metadata,
  the texts of the spans of the title, the \<^verbatim>\<open>fileThumb\<close> links and the
  \<^verbatim>\<open>post__attachment-link\<close> links in document order (post pages).
\<close>

record soup =
  small :: "tag option"
  post_cards :: "post_card list"
  post_user_name :: "tag option"
  og_image :: "tag option"
  meta_id :: "tag option"
  post_title_spans :: "string list option"
  file_thumbs :: "tag list"
  attachment_links :: "tag list"

text \<open>
  What lies outside the script: the remote site, the HTML parser and the URL functions of
  the standard library. \<open>url_query_f\<close> is \<^verbatim>\<open>parse_qs(urlparse(url).query).get('f', [None])[0]\<close>.
  \<open>render_post_info\<close> gives the text \<^verbatim>\<open>save_post_info\<close> writes for a page and a title, and the
  exception that stops it when an element it relies on is missing.
\<close>

record env =
  http_get :: "string \<Rightarrow> http_result"
  parse_html :: "string \<Rightarrow> soup"
  urljoin :: "string \<Rightarrow> string \<Rightarrow> string"
  url_netloc :: "string \<Rightarrow> string"
  url_path :: "string \<Rightarrow> string"
  url_query_f :: "string \<Rightarrow> string option"
  render_post_info :: "soup \<Rightarrow> string \<Rightarrow> string \<times> py_error option"

text \<open>The state the script changes: the file system, and the log of the requests sent.\<close>

record world =
  files :: filesystem
  requests :: "string list"

section \<open>Listing pages\<close>

text \<open>
  \<^verbatim>\<open>int(s)\<close> for a decimal literal: white space around it, a sign, digits with single
  underscores between them. \<open>None\<close> is \<^verbatim>\<open>ValueError\<close>. (The limit on the number of digits of
  recent interpreters is left out.)
\<close>

definition is_digit :: "char \<Rightarrow> bool" where
  "is_digit c \<longleftrightarrow> c \<in> set ''0123456789''"

definition digit_value :: "char \<Rightarrow> nat" where
  "digit_value c = (of_char c :: nat) - 48"

fun parse_digits :: "nat \<Rightarrow> string \<Rightarrow> nat option" where
  "parse_digits acc [] = None"
| "parse_digits acc (c # cs) =
     (if \<not> is_digit c then None
      else (case cs of
              [] \<Rightarrow> Some (acc * 10 + digit_value c)
            | d # ds \<Rightarrow>
                if d = CHR ''_'' then parse_digits (acc * 10 + digit_value c) ds
                else parse_digits (acc * 10 + digit_value c) cs))"

definition py_int :: "string \<Rightarrow> int option" where
  "py_int s =
     (case strip s of
        [] \<Rightarrow> None
      | c # cs \<Rightarrow>
          if c = CHR ''-'' then map_option (\<lambda>n. - int n) (parse_digits 0 cs)
          else if c = CHR ''+'' then map_option int (parse_digits 0 cs)
          else map_option int (parse_digits 0 (c # cs)))"

text \<open>\<^verbatim>\<open>get_total_posts(soup)\<close>; \<open>Inr None\<close> is the result \<^verbatim>\<open>None\<close>.\<close>

definition get_total_posts :: "soup \<Rightarrow> py_error + int option" where
  "get_total_posts soup =
     (case small soup of
        None \<Rightarrow> Inr None
      | Some total_posts_text \<Rightarrow>
          (case py_split (strip (tag_text total_posts_text)) '' of '' of
             a # b # rest \<Rightarrow> (case py_int b of None \<Rightarrow> Inl ValueError | Some n \<Rightarrow> Inr (Some n))
           | _ \<Rightarrow> Inl IndexError))"

text \<open>\<^verbatim>\<open>extract_post_info(post_card, base_url)\<close>.\<close>

definition extract_post_info :: "env \<Rightarrow> post_card \<Rightarrow> string \<Rightarrow> py_error + post_info" where
  "extract_post_info e post_card base_url =
     (case find_get (card_a post_card) ''href'' of
        Inl err \<Rightarrow> Inl err
      | Inr href \<Rightarrow>
     (case card_header post_card of
        None \<Rightarrow> Inl AttributeError
      | Some header \<Rightarrow>
     (case (case card_time post_card of
              Some time_tag \<Rightarrow> tag_get time_tag ''datetime''
            | None \<Rightarrow> Inr ''No date available'') of
        Inl err \<Rightarrow> Inl err
      | Inr date_v \<Rightarrow>
     (case (case card_image post_card of
              Some image_tag \<Rightarrow>
                (case tag_get image_tag ''src'' of
                   Inl err \<Rightarrow> Inl err
                 | Inr src \<Rightarrow> Inr (urljoin e base_url src))
            | None \<Rightarrow> Inr ''No image available'') of
        Inl err \<Rightarrow> Inl err
      | Inr image_v \<Rightarrow>
          Inr \<lparr>link = urljoin e base_url href,
               title = strip (tag_text header),
               attachments =
                 (case card_attachments_div post_card of
                    Some attachments_div \<Rightarrow> strip (tag_text attachments_div)
                  | None \<Rightarrow> ''No attachments''),
               date = date_v,
               image = image_v\<rparr>))))"

text \<open>The loop over the post cards of one page, appending to \<^verbatim>\<open>all_posts\<close>.\<close>

fun extract_cards :: "env \<Rightarrow> string \<Rightarrow> post_card list \<Rightarrow> post_info list \<Rightarrow> py_error + post_info list" where
  "extract_cards e base_url [] all_posts = Inr all_posts"
| "extract_cards e base_url (post_card # rest) all_posts =
     (case extract_post_info e post_card base_url of
        Inl err \<Rightarrow> Inl err
      | Inr post \<Rightarrow> extract_cards e base_url rest (all_posts @ [post]))"

text \<open>The address of a listing page, \<^verbatim>\<open>f"{base_url}?o={page_number * 50}"\<close>.\<close>

definition listing_url :: "string \<Rightarrow> nat \<Rightarrow> string" where
  "listing_url base_url page_number = base_url @ ''?o='' @ str_nat (page_number * 50)"

text \<open>The number of pages the first page announces; \<^verbatim>\<open>if total_posts:\<close> fails for \<^verbatim>\<open>None\<close> and for 0.\<close>

definition total_pages_of :: "int option \<Rightarrow> int" where
  "total_pages_of total_posts =
     (case total_posts of
        None \<Rightarrow> 1
      | Some n \<Rightarrow> if n \<noteq> 0 then (n + 49) div 50 else 1)"

text \<open>The number of pages the loop will work with, read off the first page (used to show that the loop ends).\<close>

definition announced_pages :: "env \<Rightarrow> string \<Rightarrow> int" where
  "announced_pages e base_url =
     (case http_get e (listing_url base_url 0) of
        Raises err \<Rightarrow> 0
      | Response body \<Rightarrow>
          (case get_total_posts (parse_html e body) of
             Inl err \<Rightarrow> 0
           | Inr total_posts \<Rightarrow> total_pages_of total_posts))"

text \<open>
  The \<^verbatim>\<open>while True\<close> loop that collects the posts. \<open>total_pages\<close> is set on page 0 before
  it is read. An exception of \<^verbatim>\<open>requests\<close> ends the loop; any other ends the script
  (\<open>Inl\<close>).
\<close>

function pagination_loop ::
  "env \<Rightarrow> string \<Rightarrow> nat \<Rightarrow> int \<Rightarrow> post_info list \<Rightarrow> world \<Rightarrow> (py_error + post_info list) \<times> world" where
  "pagination_loop e base_url page_number total_pages all_posts w =
     (let url = listing_url base_url page_number;
          w = w\<lparr>requests := requests w @ [url]\<rparr>
      in case http_get e url of
           Raises err \<Rightarrow> (Inr all_posts, w)
         | Response body \<Rightarrow>
             (let soup = parse_html e body
              in case (if page_number = 0
                       then (case get_total_posts soup of
                               Inl err \<Rightarrow> Inl err
                             | Inr total_posts \<Rightarrow> Inr (total_pages_of total_posts))
                       else Inr total_pages) of
                   Inl err \<Rightarrow> (Inl err, w)
                 | Inr total_pages \<Rightarrow>
                     if post_cards soup = [] then (Inr all_posts, w)
                     else (case extract_cards e base_url (post_cards soup) all_posts of
                             Inl err \<Rightarrow> (Inl err, w)
                           | Inr all_posts \<Rightarrow>
                               if total_pages - 1 \<le> int page_number then (Inr all_posts, w)
                               else pagination_loop e base_url (page_number + 1) total_pages all_posts w)))"
  by pat_completeness auto
termination
proof (relation "measure (\<lambda>(e, base_url, page_number, total_pages, all_posts, w).
    nat ((if page_number = 0 then announced_pages e base_url else total_pages) - int page_number))",
    goal_cases)
  case 1
  show ?case by simp
next
  case (2 e base_url page_number total_pages all_posts w url w' body soup tp posts)
  then show ?case
    by (auto simp: announced_pages_def split: if_splits sum.splits)
qed

declare pagination_loop.simps [simp del]

definition collect_posts :: "env \<Rightarrow> string \<Rightarrow> world \<Rightarrow> (py_error + post_info list) \<times> world" where
  "collect_posts e base_url w = pagination_loop e base_url 0 0 [] w"

section \<open>Downloading a post\<close>

text \<open>\<^verbatim>\<open>sub in s\<close> for strings.\<close>

fun contains :: "string \<Rightarrow> string \<Rightarrow> bool" where
  "contains [] sub \<longleftrightarrow> sub = []"
| "contains (c # cs) sub \<longleftrightarrow> take (length sub) (c # cs) = sub \<or> contains cs sub"

text \<open>\<^verbatim>\<open>sep.join(parts)\<close>.\<close>

fun py_join :: "string \<Rightarrow> string list \<Rightarrow> string" where
  "py_join sep [] = []"
| "py_join sep [x] = x"
| "py_join sep (x # y # rest) = x @ sep @ py_join sep (y # rest)"

text \<open>\<^verbatim>\<open>get_filename_from_url(url)\<close>; \<^verbatim>\<open>if not filename\<close> holds for \<^verbatim>\<open>None\<close> and for the empty string.\<close>

definition get_filename_from_url :: "env \<Rightarrow> string \<Rightarrow> string" where
  "get_filename_from_url e url =
     (let filename = url_query_f e url
      in sanitize_filename
           (case filename of
              None \<Rightarrow> basename (url_path e url)
            | Some f \<Rightarrow> if f = [] then basename (url_path e url) else f))"



text \<open>
  \<^verbatim>\<open>save_post_info(soup, folder)\<close>: the document is written to \<^verbatim>\<open>{title}.html\<close> in the
  folder; when an exception stops the rendering, the file holds what was written before.
\<close>

definition save_post_info :: "env \<Rightarrow> soup \<Rightarrow> string \<Rightarrow> world \<Rightarrow> (py_error + unit) \<times> world" where
  "save_post_info e soup folder w =
     (let title_v =
            (case post_title_spans soup of
               Some spans \<Rightarrow> sanitize_filename (py_join '' '' spans)
             | None \<Rightarrow> ''Untitled'');
          info_file_path = path_join2 folder (title_v @ ''.html'')
      in case render_post_info e soup title_v of
           (text, raised) \<Rightarrow>
             (case write_file (files w) info_file_path text of
                None \<Rightarrow> (Inl OSError, w)
              | Some fs \<Rightarrow>
                  (case raised of
                     None \<Rightarrow> (Inr (), w\<lparr>files := fs\<rparr>)
                   | Some err \<Rightarrow> (Inl err, w\<lparr>files := fs\<rparr>))))"

text \<open>
  The body of each of the three download loops of \<^verbatim>\<open>download_content\<close> (images,
  attachments, videos): they differ in the names of their variables and in the message
  printed when the request fails. That failure is caught; a failure to write is not.
  (\<^verbatim>\<open>downloaded_links\<close> is filled and never read; it is left out.)
\<close>

definition download_file :: "env \<Rightarrow> string \<Rightarrow> tag \<Rightarrow> world \<Rightarrow> (py_error + unit) \<times> world" where
  "download_file e post_path a_tag w =
     (case tag_get a_tag ''href'' of
        Inl err \<Rightarrow> (Inl err, w)
      | Inr url \<Rightarrow>
          (let filename = get_filename_from_url e url;
               filename = ensure_unique_filename (files w) post_path filename;
               file_path = path_join2 post_path filename
           in if \<not> path_exists (files w) file_path
              then (let w = w\<lparr>requests := requests w @ [url]\<rparr>
                    in case http_get e url of
                         Raises err \<Rightarrow> (Inr (), w)
                       | Response content \<Rightarrow>
                           (case write_file (files w) file_path content of
                              None \<Rightarrow> (Inl OSError, w)
                            | Some fs \<Rightarrow> (Inr (), w\<lparr>files := fs\<rparr>)))
              else (Inr (), w)))"

fun download_tags :: "env \<Rightarrow> string \<Rightarrow> tag list \<Rightarrow> world \<Rightarrow> (py_error + unit) \<times> world" where
  "download_tags e post_path [] w = (Inr (), w)"
| "download_tags e post_path (a_tag # rest) w =
     (case download_file e post_path a_tag w of
        (Inl err, w') \<Rightarrow> (Inl err, w')
      | (Inr u, w') \<Rightarrow> download_tags e post_path rest w')"

text \<open>The author, the platform and the folder of a post (lines 174 to 192 of the script).\<close>

definition author_name_of :: "soup \<Rightarrow> py_error + string" where
  "author_name_of soup =
     (case post_user_name soup of
        Some author_tag \<Rightarrow> Inr (strip (tag_text author_tag))
      | None \<Rightarrow>
          (case og_image soup of
             Some meta_tag \<Rightarrow>
               (case tag_get meta_tag ''content'' of
                  Inl err \<Rightarrow> Inl err
                | Inr content \<Rightarrow> Inr (hd (py_split (last (py_split content ''/'')) ''-'')))
           | None \<Rightarrow> Inr ''UnknownAuthor''))"

definition platform_name_of :: "env \<Rightarrow> soup \<Rightarrow> py_error + string" where
  "platform_name_of e soup =
     (case og_image soup of
        None \<Rightarrow> Inr ''UnknownPlatform''
      | Some meta_tag \<Rightarrow>
          (case tag_get meta_tag ''content'' of
             Inl err \<Rightarrow> Inl err
           | Inr content \<Rightarrow>
               (case py_split (url_path e content) ''/'' of
                  a # b # c # rest \<Rightarrow> Inr c
                | _ \<Rightarrow> Inl IndexError)))"

definition post_path_of :: "env \<Rightarrow> string \<Rightarrow> soup \<Rightarrow> py_error + string" where
  "post_path_of e url soup =
     (let base_folder =
            (if contains (url_netloc e url) ''kemono.su'' \<or> contains (url_netloc e url) ''kemono.party''
             then ''Kemono'' else ''Coomer'')
      in case author_name_of soup of
           Inl err \<Rightarrow> Inl err
         | Inr author_name \<Rightarrow>
        (case platform_name_of e soup of
           Inl err \<Rightarrow> Inl err
         | Inr platform_name \<Rightarrow>
        (let author_folder = author_name @ ''-'' @ platform_name
         in case find_get (meta_id soup) ''content'' of
              Inl err \<Rightarrow> Inl err
            | Inr post_id \<Rightarrow> Inr (path_join base_folder [author_folder, ''posts'', post_id]))))"

text \<open>
  What \<^verbatim>\<open>download_content\<close> prints before it returns: the post was downloaded, its folder
  was there already, or the request for its page failed.
\<close>

datatype outcome = Downloaded | Skipped | Failed request_error

text \<open>
  The part of \<^verbatim>\<open>download_content\<close> that runs once the folder of the post has been
  created (lines 202 to 260): the metadata document when \<open>save_info_txt\<close> is set, the
  images, then the attachment links when \<open>download_attachments\<close> is set, then the same
  attachment links again when \<open>download_videos\<close> is set (both loops search for
  \<^verbatim>\<open>post__attachment-link\<close>).
\<close>

definition fill_post_folder :: "env \<Rightarrow> config \<Rightarrow> soup \<Rightarrow> string \<Rightarrow> world \<Rightarrow> (py_error + outcome) \<times> world" where
  "fill_post_folder e cfg soup post_path w =
     (case (if save_info_txt cfg then save_post_info e soup post_path w else (Inr (), w)) of
        (Inl err, w) \<Rightarrow> (Inl err, w)
      | (Inr u, w) \<Rightarrow>
     (case download_tags e post_path (file_thumbs soup) w of
        (Inl err, w) \<Rightarrow> (Inl err, w)
      | (Inr u, w) \<Rightarrow>
     (case (if download_attachments cfg then download_tags e post_path (attachment_links soup) w
            else (Inr (), w)) of
        (Inl err, w) \<Rightarrow> (Inl err, w)
      | (Inr u, w) \<Rightarrow>
     (case (if download_videos cfg then download_tags e post_path (attachment_links soup) w
            else (Inr (), w)) of
        (Inl err, w) \<Rightarrow> (Inl err, w)
      | (Inr u, w) \<Rightarrow> (Inr Downloaded, w)))))"

text \<open>
  \<^verbatim>\<open>download_content(url, config)\<close>. The outer \<^verbatim>\<open>try\<close> catches the exceptions of
  \<^verbatim>\<open>requests\<close> only, and only the request for the page can raise one there; every other
  exception leaves the function (\<open>Inl\<close>).
\<close>

definition download_content :: "env \<Rightarrow> string \<Rightarrow> config \<Rightarrow> world \<Rightarrow> (py_error + outcome) \<times> world" where
  "download_content e url cfg w =
     (let w = w\<lparr>requests := requests w @ [url]\<rparr>
      in case http_get e url of
           Raises err \<Rightarrow> (Inr (Failed err), w)
         | Response html_content \<Rightarrow>
             (let soup = parse_html e html_content
              in case post_path_of e url soup of
                   Inl err \<Rightarrow> (Inl err, w)
                 | Inr post_path \<Rightarrow>
                     if path_exists (files w) post_path then (Inr Skipped, w)
                     else (case makedirs (files w) post_path of
                             None \<Rightarrow> (Inl OSError, w)
                           | Some fs \<Rightarrow> fill_post_folder e cfg soup post_path (w\<lparr>files := fs\<rparr>))))"

section \<open>The run\<close>




section \<open>Example inputs\<close>

text \<open>Small pages, sites and folders on which the theorems below are instantiated.\<close>

definition example_tag :: "string \<Rightarrow> tag" where
  "example_tag url = \<lparr>tag_text = ''Download'', tag_attrs = [(''href'', url)]\<rparr>"


section \<open>Notions used to state the claims\<close>

text \<open>
  Listing page \<open>i\<close> of a profile is fetched without an error, holds at least one post card,
  and its cards yield the post summaries \<open>ps\<close>.
\<close>

definition page_yields :: "env \<Rightarrow> string \<Rightarrow> nat \<Rightarrow> post_info list \<Rightarrow> bool" where
  "page_yields e base_url i ps \<longleftrightarrow>
     (case http_get e (listing_url base_url i) of
        Raises err \<Rightarrow> False
      | Response body \<Rightarrow>
          post_cards (parse_html e body) \<noteq> [] \<and>
          extract_cards e base_url (post_cards (parse_html e body)) [] = Inr ps)"

text \<open>The parsed listing page \<open>i\<close>, when its request succeeds.\<close>

definition page_soup :: "env \<Rightarrow> string \<Rightarrow> nat \<Rightarrow> soup option" where
  "page_soup e base_url i =
     (case http_get e (listing_url base_url i) of
        Raises err \<Rightarrow> None
      | Response body \<Rightarrow> Some (parse_html e body))"

text \<open>
  The result of \<^verbatim>\<open>download_content\<close> when it returns before it creates the folder, as a
  function of the files present: the request failed, the folder of the post could not be
  worked out, the folder exists, or it cannot be created.
\<close>

definition download_content_early :: "env \<Rightarrow> string \<Rightarrow> filesystem \<Rightarrow> (py_error + outcome) option" where
  "download_content_early e url fs =
     (case http_get e url of
        Raises err \<Rightarrow> Some (Inr (Failed err))
      | Response html \<Rightarrow>
          (case post_path_of e url (parse_html e html) of
             Inl err \<Rightarrow> Some (Inl err)
           | Inr p \<Rightarrow>
               if path_exists fs p then Some (Inr Skipped)
               else if makedirs fs p = None then Some (Inl OSError) else None))"

text \<open>A file name that names an entry of the folder it is joined to: no separator, and not empty, \<^verbatim>\<open>.\<close> or \<^verbatim>\<open>..\<close>.\<close>

definition plain_name :: "string \<Rightarrow> bool" where
  "plain_name n \<longleftrightarrow> CHR ''/'' \<notin> set n \<and> n \<noteq> [] \<and> n \<noteq> ''.'' \<and> n \<noteq> ''..''"

text \<open>
  A small site. The bodies \<^verbatim>\<open>L0\<close> and \<^verbatim>\<open>L1\<close> are listing pages with one post card each,
  the first announcing 73 posts; \<^verbatim>\<open>Z0\<close> is a listing page announcing 0 posts; \<^verbatim>\<open>B0\<close> is a listing page without post
  cards whose count reads \<^verbatim>\<open>Showing 73 posts\<close>; \<^verbatim>\<open>P1\<close> is
  the page of post 101 with one attachment link; \<^verbatim>\<open>P2\<close> is a post page without the \<^verbatim>\<open>id\<close>
  metadata; \<^verbatim>\<open>P3\<close> is the page of post 103 with two attachment links; every other body
  parses to a page with none of the elements looked for. Every address has the path
  \<^verbatim>\<open>/data/a.txt\<close> and no \<^verbatim>\<open>f\<close> parameter, so every download is named \<^verbatim>\<open>a.txt\<close>.
\<close>

definition example_card :: "string \<Rightarrow> post_card" where
  "example_card href =
     \<lparr>card_a = Some \<lparr>tag_text = ''open'', tag_attrs = [(''href'', href)]\<rparr>,
      card_header = Some \<lparr>tag_text = '' Title '', tag_attrs = []\<rparr>,
      card_attachments_div = None, card_time = None, card_image = None\<rparr>"

definition example_post :: "string \<Rightarrow> post_info" where
  "example_post href =
     \<lparr>link = href, title = ''Title'', attachments = ''No attachments'',
      date = ''No date available'', image = ''No image available''\<rparr>"

definition empty_soup :: soup where
  "empty_soup =
     \<lparr>small = None, post_cards = [], post_user_name = None, og_image = None, meta_id = None,
      post_title_spans = None, file_thumbs = [], attachment_links = []\<rparr>"

definition example_parse :: "string \<Rightarrow> soup" where
  "example_parse body =
     (if body = ''L0''
      then empty_soup\<lparr>small := Some \<lparr>tag_text = ''Showing 1-50 of 73'', tag_attrs = []\<rparr>,
                      post_cards := [example_card ''p1'']\<rparr>
      else if body = ''L1'' then empty_soup\<lparr>post_cards := [example_card ''p2'']\<rparr>
      else if body = ''Z0''
      then empty_soup\<lparr>small := Some \<lparr>tag_text = ''Showing 0-0 of 0'', tag_attrs = []\<rparr>,
                      post_cards := [example_card ''p1'']\<rparr>
      else if body = ''P1''
      then empty_soup\<lparr>post_user_name := Some \<lparr>tag_text = '' Ann '', tag_attrs = []\<rparr>,
                      og_image := Some \<lparr>tag_text = [], tag_attrs = [(''content'', ''img'')]\<rparr>,
                      meta_id := Some \<lparr>tag_text = [], tag_attrs = [(''content'', ''101'')]\<rparr>,
                      attachment_links := [example_tag ''u1'']\<rparr>
      else if body = ''P2''
      then empty_soup\<lparr>post_user_name := Some \<lparr>tag_text = '' Ann '', tag_attrs = []\<rparr>,
                      og_image := Some \<lparr>tag_text = [], tag_attrs = [(''content'', ''img'')]\<rparr>\<rparr>
      else if body = ''B0''
      then empty_soup\<lparr>small := Some \<lparr>tag_text = ''Showing 73 posts'', tag_attrs = []\<rparr>\<rparr>
      else if body = ''P3''
      then empty_soup\<lparr>post_user_name := Some \<lparr>tag_text = '' Ann '', tag_attrs = []\<rparr>,
                      og_image := Some \<lparr>tag_text = [], tag_attrs = [(''content'', ''img'')]\<rparr>,
                      meta_id := Some \<lparr>tag_text = [], tag_attrs = [(''content'', ''103'')]\<rparr>,
                      attachment_links := [example_tag ''u1'', example_tag ''u2'']\<rparr>
      else empty_soup)"

text \<open>The site with a given answer to each request.\<close>

definition example_env :: "(string \<Rightarrow> http_result) \<Rightarrow> env" where
  "example_env get =
     \<lparr>http_get = get,
      parse_html = example_parse,
      urljoin = (\<lambda>base url. url),
      url_netloc = (\<lambda>url. ''kemono.su''),
      url_path = (\<lambda>url. if url = ''img'' then ''/icons/fanbox/7'' else ''/data/a.txt''),
      url_query_f = (\<lambda>url. None),
      render_post_info = (\<lambda>soup title. (''<html>'', None))\<rparr>"

text \<open>The answers of the site when it is up: the three post pages and two files.\<close>

definition example_get :: "string \<Rightarrow> http_result" where
  "example_get url =
     (if url = ''p1'' then Response ''P1''
      else if url = ''p2'' then Response ''P2''
      else if url = ''p3'' then Response ''P3''
      else if url = ''u1'' then Response ''one''
      else if url = ''u2'' then Response ''two''
      else Raises RequestException)"

text \<open>The folder of a post of this author, freshly created in an empty working directory.\<close>

definition example_folder :: "string \<Rightarrow> filesystem" where
  "example_folder post_id =
     [([''Kemono'', ''Ann-fanbox'', ''posts'', post_id], Dir),
      ([''Kemono'', ''Ann-fanbox'', ''posts''], Dir),
      ([''Kemono'', ''Ann-fanbox''], Dir),
      ([''Kemono''], Dir)]"


section \<open>Properties of the sanitiser and the filter\<close>

lemma re_sub_class_map: "re_sub_class cls r s = map (\<lambda>c. if c \<in> cls then r else c) s"
  by (induction s) simp_all

lemma length_re_sub_class: "length (re_sub_class cls r s) = length s"
  by (simp add: re_sub_class_map)

lemma filter_loop_filter:
  "filter_loop cfg acc ps =
     acc @ filter (\<lambda>p. both cfg \<or> files_only cfg \<and> has_media p \<or> no_files cfg \<and> \<not> has_media p) ps"
  by (induction ps arbitrary: acc) simp_all

lemma filter_loop_both: "both cfg \<Longrightarrow> filter_loop cfg acc ps = acc @ ps"
  by (induction ps arbitrary: acc) simp_all

lemma filter_loop_files_only:
  "\<not> both cfg \<Longrightarrow> files_only cfg \<Longrightarrow> \<not> no_files cfg \<Longrightarrow>
     filter_loop cfg acc ps = acc @ filter has_media ps"
  by (induction ps arbitrary: acc) simp_all

lemma filter_loop_no_files:
  "\<not> both cfg \<Longrightarrow> \<not> files_only cfg \<Longrightarrow> no_files cfg \<Longrightarrow>
     filter_loop cfg acc ps = acc @ filter (\<lambda>p. \<not> has_media p) ps"
  by (induction ps arbitrary: acc) simp_all

subsection \<open>The loop of \<^verbatim>\<open>ensure_unique_filename\<close> and writes to the file system\<close>

lemma ensure_unique_loop_free:
  "\<not> path_exists fs (path_join2 path new_filename) \<Longrightarrow>
     ensure_unique_loop fs path filename new_filename counter = new_filename"
  by (subst ensure_unique_loop.simps) (simp split: prod.splits)

lemma ensure_unique_loop_taken:
  "path_exists fs (path_join2 path new_filename) \<Longrightarrow>
     ensure_unique_loop fs path filename new_filename counter =
       ensure_unique_loop fs path filename
         (duplicate_name (fst (splitext filename)) (snd (splitext filename)) counter) (counter + 1)"
  by (subst ensure_unique_loop.simps) (simp split: prod.splits)

lemma ensure_unique_loop_first_free:
  assumes "path_exists fs (path_join2 path new_filename)"
  shows "\<exists>k\<ge>counter.
           ensure_unique_loop fs path filename new_filename counter =
             duplicate_name (fst (splitext filename)) (snd (splitext filename)) k \<and>
           \<not> path_exists fs (path_join2 path (duplicate_name (fst (splitext filename)) (snd (splitext filename)) k)) \<and>
           (\<forall>j. counter \<le> j \<and> j < k \<longrightarrow>
              path_exists fs (path_join2 path (duplicate_name (fst (splitext filename)) (snd (splitext filename)) j)))"
  using assms
proof (induction fs path filename new_filename counter rule: ensure_unique_loop.induct)
  case (1 fs path filename new_filename counter)
  let ?dup = "duplicate_name (fst (splitext filename)) (snd (splitext filename))"
  have step: "ensure_unique_loop fs path filename new_filename counter =
      ensure_unique_loop fs path filename (?dup counter) (counter + 1)"
    using "1.prems" by (rule ensure_unique_loop_taken)
  show ?case
  proof (cases "path_exists fs (path_join2 path (?dup counter))")
    case False
    then have "ensure_unique_loop fs path filename (?dup counter) (counter + 1) = ?dup counter"
      by (rule ensure_unique_loop_free)
    with step False show ?thesis
      by (intro exI[of _ counter]) auto
  next
    case True
    have "\<exists>k\<ge>counter + 1.
           ensure_unique_loop fs path filename (?dup counter) (counter + 1) = ?dup k \<and>
           \<not> path_exists fs (path_join2 path (?dup k)) \<and>
           (\<forall>j. counter + 1 \<le> j \<and> j < k \<longrightarrow> path_exists fs (path_join2 path (?dup j)))"
      using "1.prems" True
      by (intro "1.IH"[of "splitext filename" "fst (splitext filename)" "snd (splitext filename)"]) simp_all
    then obtain k where k: "counter + 1 \<le> k"
      "ensure_unique_loop fs path filename (?dup counter) (counter + 1) = ?dup k"
      "\<not> path_exists fs (path_join2 path (?dup k))"
      "\<forall>j. counter + 1 \<le> j \<and> j < k \<longrightarrow> path_exists fs (path_join2 path (?dup j))"
      by blast
    have "\<forall>j. counter \<le> j \<and> j < k \<longrightarrow> path_exists fs (path_join2 path (?dup j))"
    proof (intro allI impI)
      fix j assume "counter \<le> j \<and> j < k"
      then have "j = counter \<or> (counter + 1 \<le> j \<and> j < k)" by auto
      with True k(4) show "path_exists fs (path_join2 path (?dup j))" by auto
    qed
    with k step show ?thesis
      by (intro exI[of _ k]) simp
  qed
qed

lemma ensure_unique_filename_not_exists:
  "\<not> path_exists fs (path_join2 path (ensure_unique_filename fs path filename))"
proof (cases "path_exists fs (path_join2 path filename)")
  case True
  from ensure_unique_loop_first_free[OF this, where filename = filename and counter = 1] show ?thesis
    by (auto simp: ensure_unique_filename_def)
next
  case False
  then show ?thesis
    by (simp add: ensure_unique_filename_def ensure_unique_loop_free)
qed

lemma node_at_write_file:
  "write_file fs p d = Some fs' \<Longrightarrow>
     node_at fs' k = (if k = resolve p then Some (File d) else node_at fs k)"
  by (auto simp: write_file_def Let_def node_at_def split: if_splits)

lemma path_exists_write_file:
  "write_file fs p d = Some fs' \<Longrightarrow>
     path_exists fs' q \<longleftrightarrow> path_exists fs q \<or> (q \<noteq> [] \<and> resolve q = resolve p)"
  by (auto simp: path_exists_def node_at_write_file)

lemma read_file_write_file:
  "write_file fs p d = Some fs' \<Longrightarrow>
     read_file fs' q = (if q \<noteq> [] \<and> resolve q = resolve p then Some d else read_file fs q)"
  by (auto simp: read_file_def node_at_write_file split: option.splits node.splits)




lemma splitext_concat: "fst (splitext p) @ snd (splitext p) = p"
  by (simp add: splitext_def Let_def)



lemma download_file_written:
  assumes href: "tag_get a_tag ''href'' = Inr url"
    and got: "http_get e url = Response content"
    and ok: "download_file e post_path a_tag w = (Inr (), w')"
  shows "write_file (files w)
           (path_join2 post_path (ensure_unique_filename (files w) post_path (get_filename_from_url e url)))
           content = Some (files w') \<and>
         requests w' = requests w @ [url]"
  using ok
  by (auto simp: download_file_def href got Let_def ensure_unique_filename_not_exists
      split: option.splits)

lemma write_file_nonempty: "write_file fs p d = Some fs' \<Longrightarrow> p \<noteq> []"
  by (auto simp: write_file_def Let_def split: if_splits)

lemma path_join2_nonempty: "b \<noteq> [] \<Longrightarrow> path_join2 path b \<noteq> []"
  by (simp add: path_join2_def)



subsection \<open>The loop over the listing pages\<close>

lemma extract_cards_acc:
  "extract_cards e base_url cards acc =
     (case extract_cards e base_url cards [] of Inl err \<Rightarrow> Inl err | Inr ps \<Rightarrow> Inr (acc @ ps))"
proof (induction cards arbitrary: acc)
  case Nil
  then show ?case by simp
next
  case (Cons c cs)
  show ?case
  proof (cases "extract_post_info e c base_url")
    case (Inl err)
    then show ?thesis by simp
  next
    case (Inr p)
    then show ?thesis
      using Cons[of "acc @ [p]"] Cons[of "[p]"] by (simp split: sum.splits)
  qed
qed




lemma pagination_loop_empty_page:
  "http_get e (listing_url base_url pn) = Response body \<Longrightarrow>
   post_cards (parse_html e body) = [] \<Longrightarrow>
   pn = 0 \<longrightarrow> get_total_posts (parse_html e body) = Inr t \<Longrightarrow>
     pagination_loop e base_url pn tp acc w =
       (Inr acc, w\<lparr>requests := requests w @ [listing_url base_url pn]\<rparr>)"
  by (subst pagination_loop.simps) (simp add: Let_def)

lemma pagination_loop_first_page:
  "page_yields e base_url 0 ps \<Longrightarrow>
   page_soup e base_url 0 = Some s0 \<Longrightarrow>
   get_total_posts s0 = Inr t \<Longrightarrow>
     pagination_loop e base_url 0 tp acc w =
       (if total_pages_of t - 1 \<le> 0
        then (Inr (acc @ ps), w\<lparr>requests := requests w @ [listing_url base_url 0]\<rparr>)
        else pagination_loop e base_url 1 (total_pages_of t) (acc @ ps)
               (w\<lparr>requests := requests w @ [listing_url base_url 0]\<rparr>))"
  by (subst pagination_loop.simps, subst extract_cards_acc)
    (auto simp: Let_def page_yields_def page_soup_def split: http_result.splits)

lemma pagination_loop_later_page:
  "page_yields e base_url pn ps \<Longrightarrow> 0 < pn \<Longrightarrow>
     pagination_loop e base_url pn tp acc w =
       (if tp - 1 \<le> int pn
        then (Inr (acc @ ps), w\<lparr>requests := requests w @ [listing_url base_url pn]\<rparr>)
        else pagination_loop e base_url (pn + 1) tp (acc @ ps)
               (w\<lparr>requests := requests w @ [listing_url base_url pn]\<rparr>))"
  by (subst pagination_loop.simps, subst extract_cards_acc)
    (auto simp: Let_def page_yields_def split: http_result.splits)

lemma pagination_loop_advance:
  assumes "0 < pn" and "pn \<le> k" and "int k < tp"
    and "\<forall>i. pn \<le> i \<and> i < k \<longrightarrow> page_yields e base_url i (posts i)"
  shows "pagination_loop e base_url pn tp acc w =
           pagination_loop e base_url k tp (acc @ concat (map posts [pn..<k]))
             (w\<lparr>requests := requests w @ map (listing_url base_url) [pn..<k]\<rparr>)"
  using assms(2-4)
proof (induction k)
  case 0
  with assms(1) show ?case by simp
next
  case (Suc k)
  show ?case
  proof (cases "pn = Suc k")
    case True
    then show ?thesis by simp
  next
    case False
    with Suc.prems have le: "pn \<le> k" and lt: "int k < tp" and
      pages: "\<forall>i. pn \<le> i \<and> i < k \<longrightarrow> page_yields e base_url i (posts i)" and
      page_k: "page_yields e base_url k (posts k)"
      by auto
    from le assms(1) have k0: "0 < k" by simp
    have "pagination_loop e base_url pn tp acc w =
            pagination_loop e base_url k tp (acc @ concat (map posts [pn..<k]))
              (w\<lparr>requests := requests w @ map (listing_url base_url) [pn..<k]\<rparr>)"
      using le lt pages by (rule Suc.IH)
    also have "\<dots> = pagination_loop e base_url (Suc k) tp ((acc @ concat (map posts [pn..<k])) @ posts k)
              (w\<lparr>requests := requests w @ map (listing_url base_url) [pn..<k]\<rparr>
                \<lparr>requests := requests (w\<lparr>requests := requests w @ map (listing_url base_url) [pn..<k]\<rparr>)
                   @ [listing_url base_url k]\<rparr>)"
      using Suc.prems(2) by (subst pagination_loop_later_page[OF page_k k0]) simp
    finally show ?thesis
      using le by simp
  qed
qed

lemma total_pages_of_ceiling: "N \<noteq> 0 \<Longrightarrow> total_pages_of (Some N) = \<lceil>real_of_int N / 50\<rceil>"
proof -
  assume "N \<noteq> 0"
  have "\<lceil>real_of_int N / real_of_int 50\<rceil> = - (- N div 50)"
    by (rule ceiling_divide_eq_div)
  also have "\<dots> = (N + 49) div 50" by linarith
  finally show ?thesis using \<open>N \<noteq> 0\<close> by (simp add: total_pages_of_def)
qed

lemma upt_first_last: "2 \<le> P \<Longrightarrow> [0..<P] = 0 # [1..<P - 1] @ [P - 1]"
proof -
  assume "2 \<le> P"
  then obtain n where P: "P = Suc (Suc n)"
    by (metis add_2_eq_Suc le_Suc_ex)
  have "[0..<Suc (Suc n)] = [0..<Suc n] @ [Suc n]" by simp
  also have "[0..<Suc n] = 0 # [Suc 0..<Suc n]" by (rule upt_conv_Cons) simp
  finally show ?thesis by (simp add: P)
qed



lemma collect_posts_all_pages:
  assumes s0: "page_soup e base_url 0 = Some s0"
    and t: "get_total_posts s0 = Inr t"
    and P: "total_pages_of t = int P" "1 \<le> P"
    and pages: "\<forall>i<P. page_yields e base_url i (posts i)"
  shows "collect_posts e base_url w =
           (Inr (concat (map posts [0..<P])),
            w\<lparr>requests := requests w @ map (listing_url base_url) [0..<P]\<rparr>)"
proof (cases "P = 1")
  case True
  with pages have "page_yields e base_url 0 (posts 0)" by simp
  from pagination_loop_first_page[OF this s0 t] True P show ?thesis
    by (simp add: collect_posts_def)
next
  case False
  with P have P2: "2 \<le> P" by simp
  then have p0: "page_yields e base_url 0 (posts 0)" and
    last: "page_yields e base_url (P - 1) (posts (P - 1))"
    using pages by simp_all
  have mid: "\<forall>i. 1 \<le> i \<and> i < P - 1 \<longrightarrow> page_yields e base_url i (posts i)"
    using pages by auto
  let ?w0 = "w\<lparr>requests := requests w @ [listing_url base_url 0]\<rparr>"
  have "collect_posts e base_url w = pagination_loop e base_url 1 (int P) (posts 0) ?w0"
    using pagination_loop_first_page[OF p0 s0 t, of 0 "[]" w] P P2 by (simp add: collect_posts_def)
  also have "\<dots> = pagination_loop e base_url (P - 1) (int P) (posts 0 @ concat (map posts [1..<P - 1]))
                     (?w0\<lparr>requests := requests ?w0 @ map (listing_url base_url) [1..<P - 1]\<rparr>)"
    using P2 mid by (intro pagination_loop_advance) simp_all
  also have "\<dots> = (Inr ((posts 0 @ concat (map posts [1..<P - 1])) @ posts (P - 1)),
                    w\<lparr>requests := (requests w @ [listing_url base_url 0] @ map (listing_url base_url) [1..<P - 1])
                                   @ [listing_url base_url (P - 1)]\<rparr>)"
    using P2 by (subst pagination_loop_later_page[OF last]) simp_all
  also have "(posts 0 @ concat (map posts [1..<P - 1])) @ posts (P - 1) = concat (map posts [0..<P])"
  proof -
    have "[0..<P] = 0 # [1..<P - 1] @ [P - 1]"
      using P2 by (rule upt_first_last)
    then show ?thesis by simp
  qed
  also have "(requests w @ [listing_url base_url 0] @ map (listing_url base_url) [1..<P - 1])
                                   @ [listing_url base_url (P - 1)] = requests w @ map (listing_url base_url) [0..<P]"
  proof -
    have "[0..<P] = 0 # [1..<P - 1] @ [P - 1]"
      using P2 by (rule upt_first_last)
    then show ?thesis by simp
  qed
  finally show ?thesis .
qed

lemma collect_posts_reaches:
  assumes k: "0 < k"
    and s0: "page_soup e base_url 0 = Some s0"
    and t: "get_total_posts s0 = Inr t"
    and lt: "int k < total_pages_of t"
    and pages: "\<forall>i<k. page_yields e base_url i (posts i)"
  shows "collect_posts e base_url w =
           pagination_loop e base_url k (total_pages_of t) (concat (map posts [0..<k]))
             (w\<lparr>requests := requests w @ map (listing_url base_url) [0..<k]\<rparr>)"
proof -
  let ?w0 = "w\<lparr>requests := requests w @ [listing_url base_url 0]\<rparr>"
  from pages k have p0: "page_yields e base_url 0 (posts 0)" by simp
  have later: "\<forall>i. 1 \<le> i \<and> i < k \<longrightarrow> page_yields e base_url i (posts i)"
    using pages by auto
  have upt: "[0..<k] = 0 # [1..<k]"
    using k by (simp add: upt_conv_Cons)
  have "collect_posts e base_url w = pagination_loop e base_url 0 0 [] w"
    by (simp add: collect_posts_def)
  also have "\<dots> = pagination_loop e base_url 1 (total_pages_of t) (posts 0) ?w0"
    using k lt by (subst pagination_loop_first_page[OF p0 s0 t]) simp
  also have "\<dots> = pagination_loop e base_url k (total_pages_of t) (posts 0 @ concat (map posts [1..<k]))
                     (?w0\<lparr>requests := requests ?w0 @ map (listing_url base_url) [1..<k]\<rparr>)"
    using k lt later by (intro pagination_loop_advance) simp_all
  finally show ?thesis
    by (simp add: upt)
qed


lemma collect_posts_until_empty:
  assumes body: "http_get e (listing_url base_url k) = Response body"
    and empty: "post_cards (parse_html e body) = []"
    and k: "0 < k"
    and s0: "page_soup e base_url 0 = Some s0"
    and t: "get_total_posts s0 = Inr t"
    and lt: "int k < total_pages_of t"
    and pages: "\<forall>i<k. page_yields e base_url i (posts i)"
  shows "collect_posts e base_url w =
           (Inr (concat (map posts [0..<k])),
            w\<lparr>requests := requests w @ map (listing_url base_url) [0..<Suc k]\<rparr>)"
  using k by (simp add: collect_posts_reaches[OF k s0 t lt pages] pagination_loop_empty_page[OF body empty])

lemma get_total_posts_showing_73:
  "small s = Some total_tag \<Longrightarrow> tag_text total_tag = ''Showing 1-50 of 73'' \<Longrightarrow>
     get_total_posts s = Inr (Some 73)"
  by (simp add: get_total_posts_def strip_def is_space_def py_split_def py_int_def is_digit_def
      digit_value_def)

lemma ceiling_73: "\<lceil>real_of_int 73 / 50\<rceil> = 2"
  by (simp add: ceiling_eq_iff)

subsection \<open>Downloads: what is kept and what is written\<close>

lemma node_at_make_path:
  "make_path fs cur cs = Some fs' \<Longrightarrow>
     (\<forall>k n. node_at fs k = Some n \<longrightarrow> node_at fs' k = Some n) \<and>
     (cs \<noteq> [] \<longrightarrow> node_at fs' (cur @ cs) = Some Dir)"
proof (induction cs arbitrary: fs cur)
  case Nil
  then show ?case by simp
next
  case (Cons c cs)
  show ?case
  proof (cases "node_at fs (cur @ [c])")
    case None
    with Cons.prems have mp: "make_path ((cur @ [c], Dir) # fs) (cur @ [c]) cs = Some fs'"
      by simp
    have keep: "node_at ((cur @ [c], Dir) # fs) k = Some n" if "node_at fs k = Some n" for k n
      using that None by (auto simp: node_at_def split: if_splits)
    have here: "node_at ((cur @ [c], Dir) # fs) (cur @ [c]) = Some Dir"
      by (simp add: node_at_def)
    from Cons.IH[OF mp] keep here show ?thesis
      by (cases cs) auto
  next
    case (Some nd)
    show ?thesis
    proof (cases nd)
      case Dir
      with Some Cons.prems have mp: "make_path fs (cur @ [c]) cs = Some fs'"
        by simp
      from Cons.IH[OF mp] Some Dir show ?thesis
        by (cases cs) auto
    next
      case (File d)
      with Some Cons.prems show ?thesis by simp
    qed
  qed
qed

lemma makedirs_exists: "makedirs fs p = Some fs' \<Longrightarrow> path_exists fs' p"
proof -
  assume m: "makedirs fs p = Some fs'"
  then have p: "p \<noteq> []" and r: "resolve p \<noteq> []" and mp: "make_path fs [] (resolve p) = Some fs'"
    by (auto simp: makedirs_def node_at_def split: if_splits)
  from node_at_make_path[OF mp] r have "node_at fs' (resolve p) = Some Dir" by simp
  with p show ?thesis by (simp add: path_exists_def)
qed

lemma makedirs_keeps: "makedirs fs p = Some fs' \<Longrightarrow> node_at fs k = Some n \<Longrightarrow> node_at fs' k = Some n"
  using node_at_make_path[of fs "[]" "resolve p" fs']
  by (auto simp: makedirs_def split: if_splits)

lemma write_file_keeps_existing:
  "write_file fs p d = Some fs' \<Longrightarrow> path_exists fs q \<Longrightarrow> path_exists fs' q"
  by (simp add: path_exists_write_file)

lemma save_post_info_keeps_existing:
  "save_post_info e soup folder w = (r, w') \<Longrightarrow> path_exists (files w) q \<Longrightarrow> path_exists (files w') q"
  by (auto simp: save_post_info_def Let_def split: prod.splits option.splits
      dest: write_file_keeps_existing)

lemma save_post_info_requests:
  "save_post_info e soup folder w = (r, w') \<Longrightarrow> requests w' = requests w"
  by (auto simp: save_post_info_def Let_def split: prod.splits option.splits)

lemma download_file_cases:
  assumes "download_file e post_path a_tag w = (r, w')"
  shows "w' = w \<and> r = Inl KeyError \<and> tag_get a_tag ''href'' = Inl KeyError \<or>
         (\<exists>url. tag_get a_tag ''href'' = Inr url \<and>
            (let n = ensure_unique_filename (files w) post_path (get_filename_from_url e url)
             in (\<exists>err. http_get e url = Raises err \<and> r = Inr () \<and>
                       w' = w\<lparr>requests := requests w @ [url]\<rparr>) \<or>
                (\<exists>content. http_get e url = Response content \<and>
                   (write_file (files w) (path_join2 post_path n) content = None \<and> r = Inl OSError \<and>
                      w' = w\<lparr>requests := requests w @ [url]\<rparr> \<or>
                    (\<exists>fs. write_file (files w) (path_join2 post_path n) content = Some fs \<and> r = Inr () \<and>
                      w' = w\<lparr>requests := requests w @ [url], files := fs\<rparr>)))))"
proof (cases "tag_get a_tag ''href''")
  case (Inl err)
  then have "err = KeyError"
    by (auto simp: tag_get_def split: option.splits)
  with Inl assms show ?thesis
    by (simp add: download_file_def)
next
  case (Inr url)
  with assms show ?thesis
    by (cases "http_get e url")
      (auto simp: download_file_def Let_def ensure_unique_filename_not_exists split: option.splits)
qed

lemma node_at_keeps_path_exists:
  "(\<And>k n. node_at fs k = Some n \<Longrightarrow> node_at fs' k = Some n) \<Longrightarrow>
     path_exists fs q \<Longrightarrow> path_exists fs' q"
  by (auto simp: path_exists_def)

lemma read_file_node_at:
  "read_file fs q = Some d \<longleftrightarrow> q \<noteq> [] \<and> node_at fs (resolve q) = Some (File d)"
  by (auto simp: read_file_def split: option.splits node.splits)

lemma write_file_fresh_keeps:
  "write_file fs q d = Some fs' \<Longrightarrow> \<not> path_exists fs q \<Longrightarrow>
     node_at fs k = Some n \<Longrightarrow> node_at fs' k = Some n"
  using write_file_nonempty[of fs q d fs']
  by (auto simp: node_at_write_file path_exists_def)

lemma download_file_keeps:
  assumes "download_file e post_path a_tag w = (r, w')" and "node_at (files w) k = Some n"
  shows "node_at (files w') k = Some n"
  using download_file_cases[OF assms(1)] assms(2)
  by (auto simp: Let_def dest: write_file_fresh_keeps[OF _ ensure_unique_filename_not_exists])

lemma download_tags_keeps:
  "download_tags e post_path tags w = (r, w') \<Longrightarrow> node_at (files w) k = Some n \<Longrightarrow>
     node_at (files w') k = Some n"
proof (induction tags arbitrary: w)
  case Nil
  then show ?case by simp
next
  case (Cons a tags)
  obtain r1 w1 where d: "download_file e post_path a w = (r1, w1)"
    by (cases "download_file e post_path a w")
  from download_file_keeps[OF d Cons.prems(2)] have k1: "node_at (files w1) k = Some n" .
  show ?case
  proof (cases r1)
    case (Inl err)
    with d Cons.prems(1) k1 show ?thesis by simp
  next
    case (Inr u)
    with d Cons.prems(1) have "download_tags e post_path tags w1 = (r, w')" by simp
    from Cons.IH[OF this k1] show ?thesis .
  qed
qed

lemma download_tags_keeps_existing:
  "download_tags e post_path tags w = (r, w') \<Longrightarrow> path_exists (files w) q \<Longrightarrow>
     path_exists (files w') q"
  by (erule node_at_keeps_path_exists[rotated]) (rule download_tags_keeps)

lemma download_tags_requests:
  "download_tags e post_path tags w = (Inr u, w') \<Longrightarrow>
     \<exists>urls. map (\<lambda>t. tag_get t ''href'') tags = map Inr urls \<and> requests w' = requests w @ urls"
proof (induction tags arbitrary: w)
  case Nil
  then show ?case by simp
next
  case (Cons a tags)
  obtain r1 w1 where d: "download_file e post_path a w = (r1, w1)"
    by (cases "download_file e post_path a w")
  with Cons.prems obtain u1 where r1: "r1 = Inr u1" and rest: "download_tags e post_path tags w1 = (Inr u, w')"
    by (cases r1) auto
  from download_file_cases[OF d] r1 obtain url where url: "tag_get a ''href'' = Inr url"
    and req: "requests w1 = requests w @ [url]"
    by (auto simp: Let_def)
  from Cons.IH[OF rest] obtain urls where "map (\<lambda>t. tag_get t ''href'') tags = map Inr urls"
    "requests w' = requests w1 @ urls" by blast
  with url req show ?case
    by (intro exI[of _ "url # urls"]) simp
qed

lemma fill_post_folder_keeps_existing:
  assumes "fill_post_folder e cfg soup post_path w = (r, w')" and "path_exists (files w) q"
  shows "path_exists (files w') q"
proof -
  obtain r1 w1 where s1: "(if save_info_txt cfg then save_post_info e soup post_path w else (Inr (), w)) = (r1, w1)"
    by (cases "if save_info_txt cfg then save_post_info e soup post_path w else (Inr (), w)")
  then have e1: "path_exists (files w1) q"
    using assms(2) by (auto split: if_splits dest: save_post_info_keeps_existing)
  obtain r2 w2 where s2: "download_tags e post_path (file_thumbs soup) w1 = (r2, w2)"
    by (cases "download_tags e post_path (file_thumbs soup) w1")
  then have e2: "path_exists (files w2) q"
    using e1 by (rule download_tags_keeps_existing)
  obtain r3 w3 where s3: "(if download_attachments cfg then download_tags e post_path (attachment_links soup) w2
            else (Inr (), w2)) = (r3, w3)"
    by (cases "if download_attachments cfg then download_tags e post_path (attachment_links soup) w2
            else (Inr (), w2)")
  then have e3: "path_exists (files w3) q"
    using e2 by (auto split: if_splits dest: download_tags_keeps_existing)
  obtain r4 w4 where s4: "(if download_videos cfg then download_tags e post_path (attachment_links soup) w3
            else (Inr (), w3)) = (r4, w4)"
    by (cases "if download_videos cfg then download_tags e post_path (attachment_links soup) w3
            else (Inr (), w3)")
  then have e4: "path_exists (files w4) q"
    using e3 by (auto split: if_splits dest: download_tags_keeps_existing)
  have "w' = w1 \<or> w' = w2 \<or> w' = w3 \<or> w' = w4"
    using assms(1) unfolding fill_post_folder_def s1 s2 s3 s4
    by (cases r1; cases r2; cases r3; cases r4) (simp_all add: s2 s3 s4)
  with e1 e2 e3 e4 show ?thesis by auto
qed

lemma download_content_skips:
  "http_get e url = Response html \<and> post_path_of e url (parse_html e html) = Inr post_path \<and>
   path_exists (files w) post_path \<Longrightarrow>
     download_content e url cfg w = (Inr Skipped, w\<lparr>requests := requests w @ [url]\<rparr>)"
  by (simp add: download_content_def Let_def)

lemma download_content_early_result:
  "download_content_early e url (files w) = Some res \<Longrightarrow>
     download_content e url cfg w = (res, w\<lparr>requests := requests w @ [url]\<rparr>)"
  by (auto simp: download_content_early_def download_content_def Let_def
      split: http_result.splits sum.splits if_splits option.splits)

lemma download_content_early_outcome:
  "download_content_early e url fs = Some (Inr r) \<Longrightarrow>
     (\<exists>err. r = Failed err) \<or>
     (r = Skipped \<and> (\<exists>html p. http_get e url = Response html \<and>
        post_path_of e url (parse_html e html) = Inr p \<and> path_exists fs p))"
  by (auto simp: download_content_early_def split: http_result.splits sum.splits if_splits)

lemma download_content_folder:
  assumes "download_content e url cfg w = (res, w')"
  shows "(\<exists>html p. http_get e url = Response html \<and>
            post_path_of e url (parse_html e html) = Inr p \<and> path_exists (files w') p) \<or>
         (files w' = files w \<and> download_content_early e url (files w) = Some res)"
proof (cases "download_content_early e url (files w)")
  case (Some r)
  from download_content_early_result[OF this, of cfg] assms show ?thesis
    using Some by simp
next
  case None
  then obtain html p fs where html: "http_get e url = Response html"
    and p: "post_path_of e url (parse_html e html) = Inr p"
    and ne: "\<not> path_exists (files w) p" and mk: "makedirs (files w) p = Some fs"
    by (auto simp: download_content_early_def split: http_result.splits sum.splits if_splits)
  with assms have fill: "fill_post_folder e cfg (parse_html e html) p
      (w\<lparr>requests := requests w @ [url], files := fs\<rparr>) = (res, w')"
    by (simp add: download_content_def Let_def)
  have "path_exists (files (w\<lparr>requests := requests w @ [url], files := fs\<rparr>)) p"
    using makedirs_exists[OF mk] by simp
  from fill_post_folder_keeps_existing[OF fill this] html p show ?thesis
    by blast
qed

lemma split_from_snoc_sep: "split_from [d] cur (s @ [d]) = split_from [d] cur s @ [[]]"
  by (induction s arbitrary: cur) auto

lemma walk_components_snoc_empty: "walk_components cur (cs @ [[]]) = walk_components cur cs"
  by (simp add: walk_components_append)

lemma resolve_snoc_sep: "resolve (p @ ''/'') = resolve p"
  by (simp add: resolve_def py_split_def split_from_snoc_sep[of "CHR ''/''" "[]" p, simplified]
      walk_components_snoc_empty)

lemma resolve_path_join2:
  assumes n: "CHR ''/'' \<notin> set n" "n \<notin> {[], ''.'', ''..''}"
  shows "resolve (path_join2 p n) = resolve p @ [n]"
proof -
  from n have hd: "\<not> (n \<noteq> [] \<and> hd n = CHR ''/'')"
    by (cases n) auto
  show ?thesis
  proof (cases "p = [] \<or> last p = CHR ''/''")
    case True
    then have j: "path_join2 p n = p @ n"
      using hd by (auto simp: path_join2_def)
    show ?thesis
    proof (cases "p = []")
      case True
      with j have "path_join2 p n = n" by simp
      moreover have "resolve n = [n]"
        using n by (simp add: resolve_def py_split_def split_from_no_sep)
      moreover have "resolve p = []"
        using True by (simp add: resolve_def py_split_def)
      ultimately show ?thesis by simp
    next
      case False
      with True obtain q where q: "p = q @ ''/''"
        by (metis append_butlast_last_id)
      have "last (py_split p ''/'') = []" and "butlast (py_split p ''/'') = py_split q ''/''"
        by (simp_all add: q py_split_def split_from_snoc_sep[of "CHR ''/''" "[]" q, simplified])
      then have "resolve (p @ n) = resolve q @ [n]"
        using n resolve_append[of n p] by (simp add: resolve_def)
      moreover have "resolve p = resolve q"
        unfolding q by (rule resolve_snoc_sep)
      ultimately show ?thesis
        by (simp only: j)
    qed
  next
    case False
    then have j: "path_join2 p n = (p @ ''/'') @ n"
      using hd by (auto simp: path_join2_def)
    have "last (py_split (p @ ''/'') ''/'') = []"
      and "butlast (py_split (p @ ''/'') ''/'') = py_split p ''/''"
      by (simp_all add: py_split_def split_from_snoc_sep[of "CHR ''/''" "[]" p, simplified])
    then have "resolve ((p @ ''/'') @ n) = resolve p @ [n]"
      using n resolve_append[of n "p @ ''/''"] by (simp add: resolve_def)
    then show ?thesis
      by (simp only: j)
  qed
qed

lemma resolve_plain_name: "plain_name n \<Longrightarrow> resolve (path_join2 p n) = resolve p @ [n]"
  by (rule resolve_path_join2) (simp_all add: plain_name_def)

lemma path_exists_plain_name:
  "plain_name n \<Longrightarrow> path_exists fs (path_join2 p n) \<longleftrightarrow> map_of fs (resolve p @ [n]) \<noteq> None"
  by (simp add: path_exists_def resolve_plain_name node_at_def path_join2_nonempty plain_name_def)

lemma write_file_plain_name:
  assumes "plain_name n" and "node_at fs (resolve p) = Some Dir"
    and "map_of fs (resolve p @ [n]) \<noteq> Some Dir"
  shows "write_file fs (path_join2 p n) c = Some ((resolve p @ [n], File c) # fs)"
  using assms
  by (auto simp: write_file_def Let_def resolve_plain_name node_at_def path_join2_nonempty
      plain_name_def split: if_splits)

lemma plain_name_duplicate_name:
  "plain_name f \<Longrightarrow> plain_name (duplicate_name (fst (splitext f)) (snd (splitext f)) k)"
proof -
  assume f: "plain_name f"
  let ?b = "fst (splitext f)" and ?e = "snd (splitext f)"
  have "set ?b \<union> set ?e = set f"
    by (metis set_append splitext_concat)
  with f have "CHR ''/'' \<notin> set ?b" "CHR ''/'' \<notin> set ?e"
    by (auto simp: plain_name_def)
  then have sep: "CHR ''/'' \<notin> set (duplicate_name ?b ?e k)"
    by (simp add: duplicate_name_def str_nat_no_sep)
  have "duplicate_name ?b ?e k \<notin> {[], ''.'', ''..''}"
    using duplicate_name_not_special[of ?b ?e k] by (simp add: duplicate_name_base[of ?b])
  with sep show ?thesis
    by (simp add: plain_name_def)
qed

lemma ensure_unique_filename_free:
  "\<not> path_exists fs (path_join2 p f) \<Longrightarrow> ensure_unique_filename fs p f = f"
  by (simp add: ensure_unique_filename_def ensure_unique_loop_free)


lemma download_file_step:
  assumes "tag_get a_tag ''href'' = Inr url"
    and "get_filename_from_url e url = f"
    and "ensure_unique_filename (files w) post_path f = n"
    and "http_get e url = Response c"
    and "write_file (files w) (path_join2 post_path n) c = Some fs"
  shows "download_file e post_path a_tag w =
           (Inr (), w\<lparr>requests := requests w @ [url], files := fs\<rparr>)"
  using assms ensure_unique_filename_not_exists[of "files w" post_path f]
  by (simp add: download_file_def Let_def)


lemma download_file_written_name:
  assumes href: "tag_get a_tag ''href'' = Inr url"
    and got: "http_get e url = Response content"
    and ok: "download_file e post_path a_tag w = (Inr u, w')"
  shows "\<exists>n. \<not> path_exists (files w) (path_join2 post_path n) \<and>
             read_file (files w') (path_join2 post_path n) = Some content \<and>
             path_exists (files w') (path_join2 post_path (get_filename_from_url e url)) \<and>
             (n = get_filename_from_url e url \<or>
              (\<exists>k\<ge>1. n = duplicate_name (fst (splitext (get_filename_from_url e url)))
                                (snd (splitext (get_filename_from_url e url))) k)) \<and>
             (path_exists (files w) (path_join2 post_path (get_filename_from_url e url)) \<longrightarrow>
              (\<exists>k\<ge>1. n = duplicate_name (fst (splitext (get_filename_from_url e url)))
                                (snd (splitext (get_filename_from_url e url))) k))"
proof -
  let ?f = "get_filename_from_url e url"
  let ?n = "ensure_unique_filename (files w) post_path ?f"
  from ok have ok': "download_file e post_path a_tag w = (Inr (), w')" by simp
  have wr: "write_file (files w) (path_join2 post_path ?n) content = Some (files w')"
    using download_file_written[OF href got ok'] by simp
  have nex: "\<not> path_exists (files w) (path_join2 post_path ?n)"
    by (rule ensure_unique_filename_not_exists)
  have rd: "read_file (files w') (path_join2 post_path ?n) = Some content"
    using write_file_nonempty[OF wr] by (simp add: read_file_write_file[OF wr])
  have form: "?n = ?f \<and> \<not> path_exists (files w) (path_join2 post_path ?f) \<or>
      path_exists (files w) (path_join2 post_path ?f) \<and>
      (\<exists>k\<ge>1. ?n = duplicate_name (fst (splitext ?f)) (snd (splitext ?f)) k)"
  proof (cases "path_exists (files w) (path_join2 post_path ?f)")
    case True
    from ensure_unique_loop_first_free[OF True, where filename = ?f and counter = 1] True
    show ?thesis by (auto simp: ensure_unique_filename_def)
  next
    case False
    then show ?thesis by (simp add: ensure_unique_filename_free)
  qed
  have exf: "path_exists (files w') (path_join2 post_path ?f)"
  proof (cases "path_exists (files w) (path_join2 post_path ?f)")
    case True
    then show ?thesis by (rule write_file_keeps_existing[OF wr])
  next
    case False
    with form have "?n = ?f" by auto
    with write_file_nonempty[OF wr] show ?thesis
      by (simp add: path_exists_write_file[OF wr])
  qed
  from nex rd exf form show ?thesis
    by (intro exI[of _ ?n]) auto
qed

lemma download_file_result_unit:
  "download_file e post_path a_tag w = (Inr u, w') \<Longrightarrow> \<exists>url. tag_get a_tag ''href'' = Inr url"
  using download_file_cases[of e post_path a_tag w "Inr u" w'] by auto

lemma download_tags_written_name:
  assumes "download_tags e post_path tags w = (Inr u, w')"
    and "a_tag \<in> set tags" and "tag_get a_tag ''href'' = Inr url"
    and "http_get e url = Response content"
  shows "\<exists>n. \<not> path_exists (files w) (path_join2 post_path n) \<and>
             read_file (files w') (path_join2 post_path n) = Some content \<and>
             path_exists (files w') (path_join2 post_path (get_filename_from_url e url)) \<and>
             (n = get_filename_from_url e url \<or>
              (\<exists>k\<ge>1. n = duplicate_name (fst (splitext (get_filename_from_url e url)))
                                (snd (splitext (get_filename_from_url e url))) k)) \<and>
             (path_exists (files w) (path_join2 post_path (get_filename_from_url e url)) \<longrightarrow>
              (\<exists>k\<ge>1. n = duplicate_name (fst (splitext (get_filename_from_url e url)))
                                (snd (splitext (get_filename_from_url e url))) k))"
  using assms
proof (induction tags arbitrary: w)
  case Nil
  then show ?case by simp
next
  case (Cons t tags)
  let ?f = "get_filename_from_url e url"
  let ?dup = "duplicate_name (fst (splitext ?f)) (snd (splitext ?f))"
  obtain r1 w1 where d: "download_file e post_path t w = (r1, w1)"
    by (cases "download_file e post_path t w")
  with Cons.prems(1) obtain u1 where r1: "r1 = Inr u1"
    and rest: "download_tags e post_path tags w1 = (Inr u, w')"
    by (cases r1) auto
  have mono: "path_exists (files w1) q" if "path_exists (files w) q" for q
    using that by (intro node_at_keeps_path_exists[of "files w" "files w1"] download_file_keeps[OF d])
  show ?case
  proof (cases "a_tag \<in> set tags")
    case True
    from Cons.IH[OF rest True Cons.prems(3,4)]
    obtain n where n: "\<not> path_exists (files w1) (path_join2 post_path n)"
      "read_file (files w') (path_join2 post_path n) = Some content"
      "path_exists (files w') (path_join2 post_path ?f)"
      "n = ?f \<or> (\<exists>k\<ge>1. n = ?dup k)"
      "path_exists (files w1) (path_join2 post_path ?f) \<longrightarrow> (\<exists>k\<ge>1. n = ?dup k)"
      by blast
    from n(1) mono have "\<not> path_exists (files w) (path_join2 post_path n)" by blast
    moreover from n(5) mono
    have "path_exists (files w) (path_join2 post_path ?f) \<longrightarrow> (\<exists>k\<ge>1. n = ?dup k)" by blast
    ultimately show ?thesis using n(2,3,4) by blast
  next
    case False
    with Cons.prems(2) have t: "t = a_tag" by simp
    from download_file_written_name[OF Cons.prems(3,4) d[unfolded t r1]]
    obtain n where n: "\<not> path_exists (files w) (path_join2 post_path n)"
      "read_file (files w1) (path_join2 post_path n) = Some content"
      "path_exists (files w1) (path_join2 post_path ?f)"
      "n = ?f \<or> (\<exists>k\<ge>1. n = ?dup k)"
      "path_exists (files w) (path_join2 post_path ?f) \<longrightarrow> (\<exists>k\<ge>1. n = ?dup k)"
      by blast
    from n(2) have "read_file (files w') (path_join2 post_path n) = Some content"
      using download_tags_keeps[OF rest] by (simp add: read_file_node_at)
    moreover from n(3) have "path_exists (files w') (path_join2 post_path ?f)"
      by (rule download_tags_keeps_existing[OF rest])
    ultimately show ?thesis using n(1,4,5) by blast
  qed
qed

lemma make_path_longer_keys:
  "make_path fs cur cs = Some fs' \<Longrightarrow> length cur + length cs < length k \<Longrightarrow>
     map_of fs' k = map_of fs k"
proof (induction cs arbitrary: fs cur)
  case Nil
  then show ?case by simp
next
  case (Cons c cs)
  from Cons.prems(2) have k: "k \<noteq> cur @ [c]" by auto
  show ?case
  proof (cases "node_at fs (cur @ [c])")
    case None
    with Cons.prems have "make_path ((cur @ [c], Dir) # fs) (cur @ [c]) cs = Some fs'" by simp
    from Cons.IH[OF this] Cons.prems(2) k show ?thesis by simp
  next
    case (Some nd)
    with Cons.prems(1) have "make_path fs (cur @ [c]) cs = Some fs'"
      by (cases nd) simp_all
    from Cons.IH[OF this] Cons.prems(2) show ?thesis by simp
  qed
qed

lemma makedirs_below:
  "makedirs fs p = Some fs' \<Longrightarrow> map_of fs' (resolve p @ [n]) = map_of fs (resolve p @ [n])"
  by (auto simp: makedirs_def split: if_splits intro: make_path_longer_keys)

lemma download_content_downloaded:
  assumes "download_content e url cfg w = (Inr Downloaded, w')"
  shows "\<exists>html p fs. http_get e url = Response html \<and>
           post_path_of e url (parse_html e html) = Inr p \<and>
           \<not> path_exists (files w) p \<and> makedirs (files w) p = Some fs \<and>
           fill_post_folder e cfg (parse_html e html) p
             (w\<lparr>requests := requests w @ [url], files := fs\<rparr>) = (Inr Downloaded, w')"
  using assms
  by (auto simp: download_content_def Let_def
      split: http_result.splits sum.splits if_splits option.splits)

lemma fill_post_folder_passes:
  assumes "download_attachments cfg" and "download_videos cfg"
    and "fill_post_folder e cfg soup p w = (Inr Downloaded, w')"
  shows "\<exists>w1 w2 w3. requests w1 = requests w \<and>
           (\<not> save_info_txt cfg \<longrightarrow> w1 = w) \<and>
           download_tags e p (file_thumbs soup) w1 = (Inr (), w2) \<and>
           download_tags e p (attachment_links soup) w2 = (Inr (), w3) \<and>
           download_tags e p (attachment_links soup) w3 = (Inr (), w')"
proof -
  obtain r1 w1 where s1: "(if save_info_txt cfg then save_post_info e soup p w else (Inr (), w)) = (r1, w1)"
    by (cases "if save_info_txt cfg then save_post_info e soup p w else (Inr (), w)")
  obtain r2 w2 where s2: "download_tags e p (file_thumbs soup) w1 = (r2, w2)"
    by (cases "download_tags e p (file_thumbs soup) w1")
  obtain r3 w3 where s3: "download_tags e p (attachment_links soup) w2 = (r3, w3)"
    by (cases "download_tags e p (attachment_links soup) w2")
  obtain r4 w4 where s4: "download_tags e p (attachment_links soup) w3 = (r4, w4)"
    by (cases "download_tags e p (attachment_links soup) w3")
  from assms have "r1 = Inr () \<and> r2 = Inr () \<and> r3 = Inr () \<and> r4 = Inr () \<and> w4 = w'"
    unfolding fill_post_folder_def s1
    by (cases r1; cases r2; cases r3; cases r4) (simp_all add: s2 s3 s4)
  moreover have "requests w1 = requests w"
    using s1 by (auto split: if_splits dest: save_post_info_requests)
  moreover have "\<not> save_info_txt cfg \<longrightarrow> w1 = w"
    using s1 by auto
  ultimately show ?thesis
    using s2 s3 s4 by blast
qed

section \<open>Claims\<close>

text \<open>
  C8. For every input string, \<^verbatim>\<open>sanitize_filename\<close> replaces each of the characters
  \<^verbatim>\<open>< > : " / \ | ? *\<close> by an underscore and keeps at most 255 characters: the result has
  the length of the input or 255, whichever is less, no forbidden character is left in
  it, and at every position it keeps it holds the underscore where the input has a
  forbidden character and the character of the input otherwise.
\<close>

theorem sanitize_filename_replaces_and_truncates:
  "length (sanitize_filename s) = min 255 (length s) \<and>
   set (sanitize_filename s) \<inter> forbidden_chars = {} \<and>
   (\<forall>i < length (sanitize_filename s).
      sanitize_filename s ! i = (if s ! i \<in> forbidden_chars then CHR ''_'' else s ! i))"
proof -
  have len: "length (sanitize_filename s) = min 255 (length s)"
    by (simp add: sanitize_filename_def length_re_sub_class min.commute)
  have nth: "sanitize_filename s ! i = (if s ! i \<in> forbidden_chars then CHR ''_'' else s ! i)"
    if "i < length (sanitize_filename s)" for i
    using that len by (simp add: sanitize_filename_def re_sub_class_map)
  have "c \<notin> forbidden_chars" if "c \<in> set (sanitize_filename s)" for c
  proof -
    from that obtain i where i: "i < length (sanitize_filename s)" and c: "c = sanitize_filename s ! i"
      by (auto simp: in_set_conv_nth)
    have "CHR ''_'' \<notin> forbidden_chars"
      by (simp add: forbidden_chars_def)
    with nth[OF i] c show ?thesis
      by (simp split: if_splits)
  qed
  with len nth show ?thesis by auto
qed

theorem sanitize_filename_witness:
  "length (sanitize_filename ''a/b:c?.txt'') = 10 \<and>
   1 < length (sanitize_filename ''a/b:c?.txt'') \<and>
   sanitize_filename ''a/b:c?.txt'' ! 1 = CHR ''_'' \<and>
   sanitize_filename ''a/b:c?.txt'' = ''a_b_c_.txt''"
  using sanitize_filename_replaces_and_truncates [of "''a/b:c?.txt''"]
  by (simp add: sanitize_filename_def forbidden_chars_def)

text \<open>
  C1. A post has media iff its image is not \<^verbatim>\<open>"No image available"\<close> or its attachments
  label is not \<^verbatim>\<open>"No attachments"\<close>. When exactly one of \<open>both\<close>, \<open>files_only\<close> and \<open>no_files\<close>
  is set, the filter keeps, in the order of its input, all posts (\<open>both\<close>), the posts with
  media (\<open>files_only\<close>), or the posts without media (\<open>no_files\<close>).
\<close>

theorem filter_posts_modes:
  assumes "(both cfg \<and> \<not> files_only cfg \<and> \<not> no_files cfg) \<or>
           (\<not> both cfg \<and> files_only cfg \<and> \<not> no_files cfg) \<or>
           (\<not> both cfg \<and> \<not> files_only cfg \<and> no_files cfg)"
  shows "(has_media post \<longleftrightarrow>
            image post \<noteq> ''No image available'' \<or> attachments post \<noteq> ''No attachments'') \<and>
         filter_posts cfg posts =
           (if both cfg then posts
            else if files_only cfg then filter has_media posts
            else filter (\<lambda>p. \<not> has_media p) posts)"
  using assms
  by (auto simp: filter_posts_def has_media_def filter_loop_both filter_loop_files_only
      filter_loop_no_files)

theorem filter_posts_modes_witness:
  "filter_posts
     \<lparr>both = False, files_only = True, no_files = False, save_info_txt = False,
      download_attachments = False, download_videos = False\<rparr>
     [\<lparr>link = ''l1'', title = ''t1'', attachments = ''No attachments'', date = ''d1'',
       image = ''No image available''\<rparr>,
      \<lparr>link = ''l2'', title = ''t2'', attachments = ''2 attachments'', date = ''d2'',
       image = ''No image available''\<rparr>,
      \<lparr>link = ''l3'', title = ''t3'', attachments = ''No attachments'', date = ''d3'',
       image = ''i3''\<rparr>]
   = [\<lparr>link = ''l2'', title = ''t2'', attachments = ''2 attachments'', date = ''d2'',
       image = ''No image available''\<rparr>,
      \<lparr>link = ''l3'', title = ''t3'', attachments = ''No attachments'', date = ''d3'',
       image = ''i3''\<rparr>]"
  using filter_posts_modes [of
      "\<lparr>both = False, files_only = True, no_files = False, save_info_txt = False,
        download_attachments = False, download_videos = False\<rparr>"
      "\<lparr>link = ''l1'', title = ''t1'', attachments = ''No attachments'', date = ''d1'',
        image = ''No image available''\<rparr>"
      "[\<lparr>link = ''l1'', title = ''t1'', attachments = ''No attachments'', date = ''d1'',
         image = ''No image available''\<rparr>,
        \<lparr>link = ''l2'', title = ''t2'', attachments = ''2 attachments'', date = ''d2'',
         image = ''No image available''\<rparr>,
        \<lparr>link = ''l3'', title = ''t3'', attachments = ''No attachments'', date = ''d3'',
         image = ''i3''\<rparr>]"]
  by (simp add: has_media_def)

text \<open>
  C2, as amended. The branches of the filter are an \<^verbatim>\<open>if\<close>/\<^verbatim>\<open>elif\<close> chain, so a post is
  appended at most once for each time it occurs in the input, whatever the flags: when
  \<open>both\<close> is set (in particular when all three flags are set) the output is the input,
  and in every configuration no post occurs more often in the output than in the input.
\<close>

theorem filter_posts_no_duplicates:
  "(both cfg \<longrightarrow> filter_posts cfg posts = posts) \<and>
   count_list (filter_posts cfg posts) post \<le> count_list posts post"
proof -
  have "count_list (filter P ps) post \<le> count_list ps post" for P and ps :: "post_info list"
    by (induction ps) auto
  then show ?thesis
    by (simp add: filter_posts_def filter_loop_both filter_loop_filter)
qed

theorem filter_posts_no_duplicates_witness:
  "filter_posts
     \<lparr>both = True, files_only = True, no_files = True, save_info_txt = False,
      download_attachments = False, download_videos = False\<rparr>
     [\<lparr>link = ''l'', title = ''t'', attachments = ''1 attachment'', date = ''d'', image = ''i''\<rparr>]
   = [\<lparr>link = ''l'', title = ''t'', attachments = ''1 attachment'', date = ''d'', image = ''i''\<rparr>]"
  using filter_posts_no_duplicates [of
      "\<lparr>both = True, files_only = True, no_files = True, save_info_txt = False,
        download_attachments = False, download_videos = False\<rparr>"
      "[\<lparr>link = ''l'', title = ''t'', attachments = ''1 attachment'', date = ''d'', image = ''i''\<rparr>]"]
  by simp

text \<open>
  C2 as stated fails: with all three flags set, a post with media that occurs once in
  the input occurs once in the output.
\<close>

theorem filter_posts_all_flags_counterexample:
  "has_media \<lparr>link = ''l'', title = ''t'', attachments = ''1 attachment'', date = ''d'', image = ''i''\<rparr> \<and>
   count_list
     (filter_posts
        \<lparr>both = True, files_only = True, no_files = True, save_info_txt = False,
         download_attachments = False, download_videos = False\<rparr>
        [\<lparr>link = ''l'', title = ''t'', attachments = ''1 attachment'', date = ''d'', image = ''i''\<rparr>])
     \<lparr>link = ''l'', title = ''t'', attachments = ''1 attachment'', date = ''d'', image = ''i''\<rparr> = 1"
  by (simp add: filter_posts_def has_media_def)



text \<open>
  C4, as amended. When the first listing page reports a total \<open>N \<ge> 1\<close> and every page
  below \<open>\<lceil>N / 50\<rceil>\<close> is fetched without an error and holds at least one post card, the
  walker works with \<open>\<lceil>N / 50\<rceil>\<close> pages and fetches exactly the pages at the offsets
  \<open>i * 50\<close> for \<open>i < \<lceil>N / 50\<rceil>\<close>, in this order, collecting their posts. In particular a
  first page reporting \<^verbatim>\<open>Showing 1-50 of 73\<close> gives exactly two fetches, at the offsets 0
  and 50. When the first page has no total-count element the walker works with one page.
  A reported total of 0 is treated like a missing one: one page, not \<open>\<lceil>0 / 50\<rceil> = 0\<close>.
\<close>

theorem pagination_fetches_announced_pages:
  "(page_soup e base_url 0 = Some s0 \<and> get_total_posts s0 = Inr (Some N) \<and> 1 \<le> N \<and>
    (\<forall>i < nat \<lceil>real_of_int N / 50\<rceil>. page_yields e base_url i (posts i)) \<longrightarrow>
      total_pages_of (Some N) = \<lceil>real_of_int N / 50\<rceil> \<and>
      collect_posts e base_url w =
        (Inr (concat (map posts [0..<nat \<lceil>real_of_int N / 50\<rceil>])),
         w\<lparr>requests := requests w @
             map (\<lambda>i. base_url @ ''?o='' @ str_nat (i * 50)) [0..<nat \<lceil>real_of_int N / 50\<rceil>]\<rparr>)) \<and>
   (page_soup e base_url 0 = Some s1 \<and> small s1 = Some total_tag \<and>
    tag_text total_tag = ''Showing 1-50 of 73'' \<and>
    page_yields e base_url 0 p0 \<and> page_yields e base_url 1 p1 \<longrightarrow>
      collect_posts e base_url w =
        (Inr (p0 @ p1), w\<lparr>requests := requests w @ [base_url @ ''?o=0'', base_url @ ''?o=50'']\<rparr>)) \<and>
   (page_soup e base_url 0 = Some s2 \<and> small s2 = None \<and> page_yields e base_url 0 p0 \<longrightarrow>
      get_total_posts s2 = Inr None \<and> total_pages_of None = 1 \<and>
      collect_posts e base_url w = (Inr p0, w\<lparr>requests := requests w @ [base_url @ ''?o=0'']\<rparr>)) \<and>
   total_pages_of (Some 0) = 1"
proof (intro conjI impI)
  assume a: "page_soup e base_url 0 = Some s0 \<and> get_total_posts s0 = Inr (Some N) \<and> 1 \<le> N \<and>
    (\<forall>i < nat \<lceil>real_of_int N / 50\<rceil>. page_yields e base_url i (posts i))"
  then have N: "N \<noteq> 0" by simp
  then show tp: "total_pages_of (Some N) = \<lceil>real_of_int N / 50\<rceil>"
    by (rule total_pages_of_ceiling)
  from a have "0 < real_of_int N / 50" by simp
  then have pos: "0 < \<lceil>real_of_int N / 50\<rceil>" by linarith
  then have P1: "total_pages_of (Some N) = int (nat \<lceil>real_of_int N / 50\<rceil>)"
    unfolding tp by linarith
  from pos have P2: "1 \<le> nat \<lceil>real_of_int N / 50\<rceil>"
    by linarith
  note P = P1 P2
  from a have s0: "page_soup e base_url 0 = Some s0" and t: "get_total_posts s0 = Inr (Some N)"
    and pages: "\<forall>i < nat \<lceil>real_of_int N / 50\<rceil>. page_yields e base_url i (posts i)"
    by simp_all
  have "map (\<lambda>i. base_url @ ''?o='' @ str_nat (i * 50)) [0..<nat \<lceil>real_of_int N / 50\<rceil>] =
      map (listing_url base_url) [0..<nat \<lceil>real_of_int N / 50\<rceil>]"
    by (simp add: listing_url_def)
  then show "collect_posts e base_url w =
        (Inr (concat (map posts [0..<nat \<lceil>real_of_int N / 50\<rceil>])),
         w\<lparr>requests := requests w @
             map (\<lambda>i. base_url @ ''?o='' @ str_nat (i * 50)) [0..<nat \<lceil>real_of_int N / 50\<rceil>]\<rparr>)"
    using collect_posts_all_pages[OF s0 t P pages, of w] by simp
next
  assume a: "page_soup e base_url 0 = Some s1 \<and> small s1 = Some total_tag \<and>
    tag_text total_tag = ''Showing 1-50 of 73'' \<and>
    page_yields e base_url 0 p0 \<and> page_yields e base_url 1 p1"
  then have s1: "page_soup e base_url 0 = Some s1" and t: "get_total_posts s1 = Inr (Some 73)"
    by (simp_all add: get_total_posts_showing_73)
  have P: "total_pages_of (Some 73) = int 2" "1 \<le> (2::nat)"
    by (simp_all add: total_pages_of_def)
  have pages: "\<forall>i<2. page_yields e base_url i ((\<lambda>i. if i = 0 then p0 else p1) i)"
    using a by (auto simp: less_2_cases_iff)
  have two: "[0..<2] = [0, Suc 0]"
    by (simp add: numeral_2_eq_2)
  have urls: "listing_url base_url 0 = base_url @ ''?o=0''" "listing_url base_url (Suc 0) = base_url @ ''?o=50''"
    by (simp_all add: listing_url_def str_nat.simps digit_char_def)
  show "collect_posts e base_url w =
        (Inr (p0 @ p1), w\<lparr>requests := requests w @ [base_url @ ''?o=0'', base_url @ ''?o=50'']\<rparr>)"
    using collect_posts_all_pages[OF s1 t P pages, of w] by (simp add: two urls)
next
  assume a: "page_soup e base_url 0 = Some s2 \<and> small s2 = None \<and> page_yields e base_url 0 p0"
  then show t: "get_total_posts s2 = Inr None"
    by (simp add: get_total_posts_def)
  show one: "total_pages_of None = 1"
    by (simp add: total_pages_of_def)
  have P: "total_pages_of None = int 1" "1 \<le> (1::nat)"
    using one by simp_all
  have pages: "\<forall>i<1. page_yields e base_url i ((\<lambda>i. p0) i)"
    using a by simp
  have url: "listing_url base_url 0 = base_url @ ''?o=0''"
    by (simp add: listing_url_def str_nat.simps digit_char_def)
  from a have s2: "page_soup e base_url 0 = Some s2" by simp
  show "collect_posts e base_url w = (Inr p0, w\<lparr>requests := requests w @ [base_url @ ''?o=0'']\<rparr>)"
    using collect_posts_all_pages[OF s2 t P pages, of w] by (simp add: url)
next
  show "total_pages_of (Some 0) = 1"
    by (simp add: total_pages_of_def)
qed

theorem pagination_fetches_announced_pages_witness:
  "get_total_posts (example_parse ''L0'') = Inr (Some 73) \<and>
   nat \<lceil>real_of_int 73 / 50\<rceil> = 2 \<and>
   collect_posts
     (example_env (\<lambda>url. if url = ''b?o=0'' then Response ''L0''
                          else if url = ''b?o=50'' then Response ''L1'' else Raises RequestException))
     ''b'' \<lparr>files = [], requests = []\<rparr> =
     (Inr [example_post ''p1'', example_post ''p2''], \<lparr>files = [], requests = [''b?o=0'', ''b?o=50'']\<rparr>)"
proof -
  let ?get = "\<lambda>url. if url = ''b?o=0'' then Response ''L0''
                     else if url = ''b?o=50'' then Response ''L1'' else Raises RequestException"
  let ?posts = "\<lambda>i::nat. if i = 0 then [example_post ''p1''] else [example_post ''p2'']"
  have urls: "listing_url ''b'' 0 = ''b?o=0''" "listing_url ''b'' (Suc 0) = ''b?o=50''"
    by (simp_all add: listing_url_def str_nat.simps digit_char_def)
  have total: "get_total_posts (example_parse ''L0'') = Inr (Some 73)"
    by (rule get_total_posts_showing_73[where total_tag = "\<lparr>tag_text = ''Showing 1-50 of 73'', tag_attrs = []\<rparr>"])
      (simp_all add: example_parse_def empty_soup_def)
  have two: "nat \<lceil>real_of_int 73 / 50\<rceil> = 2"
    by (simp add: ceiling_73)
  have soup: "page_soup (example_env ?get) ''b'' 0 = Some (example_parse ''L0'')"
    by (simp add: page_soup_def example_env_def urls)
  have y0: "page_yields (example_env ?get) ''b'' 0 [example_post ''p1'']"
    by (simp add: page_yields_def example_env_def urls example_parse_def empty_soup_def
        example_card_def example_post_def extract_post_info_def find_get_def tag_get_def
        strip_def is_space_def)
  have y1: "page_yields (example_env ?get) ''b'' (Suc 0) [example_post ''p2'']"
    by (simp add: page_yields_def example_env_def urls example_parse_def empty_soup_def
        example_card_def example_post_def extract_post_info_def find_get_def tag_get_def
        strip_def is_space_def)
  have pages: "\<forall>i < nat \<lceil>real_of_int 73 / 50\<rceil>. page_yields (example_env ?get) ''b'' i (?posts i)"
    unfolding two using y0 y1 by (auto simp: less_2_cases_iff)
  have "collect_posts (example_env ?get) ''b'' \<lparr>files = [], requests = []\<rparr> =
        (Inr (concat (map ?posts [0..<nat \<lceil>real_of_int 73 / 50\<rceil>])),
         \<lparr>files = [], requests = [] @ map (\<lambda>i. ''b'' @ ''?o='' @ str_nat (i * 50))
             [0..<nat \<lceil>real_of_int 73 / 50\<rceil>]\<rparr>)"
    using pagination_fetches_announced_pages [where e = "example_env ?get" and base_url = "''b''"
        and ?s0.0 = "example_parse ''L0''" and N = 73 and posts = ?posts
        and w = "\<lparr>files = [], requests = []\<rparr>"] soup total pages
    by simp
  then have "collect_posts (example_env ?get) ''b'' \<lparr>files = [], requests = []\<rparr> =
     (Inr [example_post ''p1'', example_post ''p2''], \<lparr>files = [], requests = [''b?o=0'', ''b?o=50'']\<rparr>)"
    unfolding two by (simp add: numeral_2_eq_2 str_nat.simps digit_char_def)
  with total two show ?thesis by simp
qed

text \<open>
  C4 as stated fails for a reported total of 0: the page count the walker works with is 1
  (the test \<^verbatim>\<open>if total_posts:\<close> fails for 0), while \<open>\<lceil>0 / 50\<rceil> = 0\<close>.
\<close>

theorem pagination_total_zero_counterexample:
  "get_total_posts (example_parse ''Z0'') = Inr (Some 0) \<and>
   total_pages_of (Some 0) = 1 \<and>
   \<lceil>real_of_int 0 / 50\<rceil> = 0 \<and>
   collect_posts
     (example_env (\<lambda>url. if url = ''b?o=0'' then Response ''Z0'' else Raises RequestException))
     ''b'' \<lparr>files = [], requests = []\<rparr> =
     (Inr [example_post ''p1''], \<lparr>files = [], requests = [''b?o=0'']\<rparr>)"
proof -
  have total: "get_total_posts (example_parse ''Z0'') = Inr (Some 0)"
    by (simp add: get_total_posts_def example_parse_def empty_soup_def strip_def is_space_def
        py_split_def py_int_def is_digit_def digit_value_def)
  have url: "listing_url ''b'' 0 = ''b?o=0''"
    by (simp add: listing_url_def str_nat.simps digit_char_def)
  have cards: "post_cards (example_parse ''Z0'') = [example_card ''p1'']"
    by (simp add: example_parse_def empty_soup_def)
  have ex_cards: "extract_cards e ''b'' [example_card ''p1''] [] = Inr [example_post ''p1'']"
    if "urljoin e = (\<lambda>base url. url)" for e
    using that
    by (simp add: example_card_def example_post_def extract_post_info_def find_get_def tag_get_def
        strip_def is_space_def)
  have "collect_posts
     (example_env (\<lambda>url. if url = ''b?o=0'' then Response ''Z0'' else Raises RequestException))
     ''b'' \<lparr>files = [], requests = []\<rparr> =
     (Inr [example_post ''p1''], \<lparr>files = [], requests = [''b?o=0'']\<rparr>)"
    unfolding collect_posts_def
    by (subst pagination_loop.simps)
      (simp add: url Let_def example_env_def total cards total_pages_of_def
        ex_cards[unfolded example_env_def, simplified])
  with total show ?thesis
    by (simp add: total_pages_of_def)
qed

text \<open>
  C5, as amended. A listing page with zero post cards that is not the first page ends the
  walk without an error and leaves the posts collected so far as they are, whatever
  number of pages was computed; the first page does so when its total count is absent or
  can be read (the count is read before the cards are looked at). Hence a walk whose
  pages before page \<open>k > 0\<close> held posts and whose page \<open>k\<close>, below the computed total, is
  empty returns the posts of the pages before \<open>k\<close>.
\<close>

theorem pagination_stops_on_empty_page:
  "(http_get e (listing_url base_url pn) = Response body \<and>
    post_cards (parse_html e body) = [] \<and>
    (pn = 0 \<longrightarrow> get_total_posts (parse_html e body) = Inr t) \<longrightarrow>
      pagination_loop e base_url pn tp acc w =
        (Inr acc, w\<lparr>requests := requests w @ [listing_url base_url pn]\<rparr>)) \<and>
   (0 < k \<and> page_soup e base_url 0 = Some s0 \<and> get_total_posts s0 = Inr t0 \<and>
    int k < total_pages_of t0 \<and> (\<forall>i<k. page_yields e base_url i (posts i)) \<and>
    http_get e (listing_url base_url k) = Response body_k \<and>
    post_cards (parse_html e body_k) = [] \<longrightarrow>
      collect_posts e base_url w =
        (Inr (concat (map posts [0..<k])),
         w\<lparr>requests := requests w @ map (listing_url base_url) [0..<Suc k]\<rparr>))"
proof (intro conjI impI)
  assume "http_get e (listing_url base_url pn) = Response body \<and>
    post_cards (parse_html e body) = [] \<and>
    (pn = 0 \<longrightarrow> get_total_posts (parse_html e body) = Inr t)"
  then show "pagination_loop e base_url pn tp acc w =
        (Inr acc, w\<lparr>requests := requests w @ [listing_url base_url pn]\<rparr>)"
    by (intro pagination_loop_empty_page[where body = body and t = t]) simp_all
next
  assume a: "0 < k \<and> page_soup e base_url 0 = Some s0 \<and> get_total_posts s0 = Inr t0 \<and>
    int k < total_pages_of t0 \<and> (\<forall>i<k. page_yields e base_url i (posts i)) \<and>
    http_get e (listing_url base_url k) = Response body_k \<and>
    post_cards (parse_html e body_k) = []"
  then show "collect_posts e base_url w =
        (Inr (concat (map posts [0..<k])),
         w\<lparr>requests := requests w @ map (listing_url base_url) [0..<Suc k]\<rparr>)"
    by (intro collect_posts_until_empty[where body = body_k and ?s0.0 = s0 and t = t0]) simp_all
qed

theorem pagination_stops_on_empty_page_witness:
  "pagination_loop
     (example_env (\<lambda>url. if url = ''b?o=0'' then Response ''L0''
                          else if url = ''b?o=50'' then Response ''E'' else Raises RequestException))
     ''b'' 1 2 [example_post ''p1''] \<lparr>files = [], requests = [''b?o=0'']\<rparr> =
     (Inr [example_post ''p1''], \<lparr>files = [], requests = [''b?o=0'', ''b?o=50'']\<rparr>) \<and>
   collect_posts
     (example_env (\<lambda>url. if url = ''b?o=0'' then Response ''L0''
                          else if url = ''b?o=50'' then Response ''E'' else Raises RequestException))
     ''b'' \<lparr>files = [], requests = []\<rparr> =
     (Inr [example_post ''p1''], \<lparr>files = [], requests = [''b?o=0'', ''b?o=50'']\<rparr>)"
proof -
  let ?get = "\<lambda>url. if url = ''b?o=0'' then Response ''L0''
                     else if url = ''b?o=50'' then Response ''E'' else Raises RequestException"
  have urls: "listing_url ''b'' 0 = ''b?o=0''" "listing_url ''b'' (Suc 0) = ''b?o=50''"
    by (simp_all add: listing_url_def str_nat.simps digit_char_def)
  have total: "get_total_posts (example_parse ''L0'') = Inr (Some 73)"
    by (rule get_total_posts_showing_73[where total_tag = "\<lparr>tag_text = ''Showing 1-50 of 73'', tag_attrs = []\<rparr>"])
      (simp_all add: example_parse_def empty_soup_def)
  have soup: "page_soup (example_env ?get) ''b'' 0 = Some (example_parse ''L0'')"
    by (simp add: page_soup_def example_env_def urls)
  have y0: "page_yields (example_env ?get) ''b'' 0 [example_post ''p1'']"
    by (simp add: page_yields_def example_env_def urls example_parse_def empty_soup_def
        example_card_def example_post_def extract_post_info_def find_get_def tag_get_def
        strip_def is_space_def)
  have get1: "http_get (example_env ?get) (listing_url ''b'' (Suc 0)) = Response ''E''"
    by (simp add: example_env_def urls)
  have empty: "post_cards (parse_html (example_env ?get) ''E'') = []"
    by (simp add: example_env_def example_parse_def empty_soup_def)
  have lt: "int (Suc 0) < total_pages_of (Some 73)"
    by (simp add: total_pages_of_def)
  from pagination_stops_on_empty_page [where e = "example_env ?get" and base_url = "''b''"
      and pn = "Suc 0" and body = "''E''" and tp = 2 and acc = "[example_post ''p1'']"
      and w = "\<lparr>files = [], requests = [''b?o=0'']\<rparr>" and k = "Suc 0"
      and ?s0.0 = "example_parse ''L0''" and ?t0.0 = "Some 73"
      and posts = "\<lambda>i. [example_post ''p1'']" and body_k = "''E''"]
    pagination_stops_on_empty_page [where e = "example_env ?get" and base_url = "''b''"
      and pn = "Suc 0" and body = "''E''" and tp = 2 and acc = "[example_post ''p1'']"
      and w = "\<lparr>files = [], requests = []\<rparr>" and k = "Suc 0"
      and ?s0.0 = "example_parse ''L0''" and ?t0.0 = "Some 73"
      and posts = "\<lambda>i. [example_post ''p1'']" and body_k = "''E''"]
    soup total y0 get1 empty lt
  show ?thesis
    by (simp add: urls)
qed

text \<open>
  C5 as stated fails on the first page: a first listing page without post cards whose
  \<^verbatim>\<open>small\<close> element reads \<^verbatim>\<open>Showing 73 posts\<close> ends the script with \<^verbatim>\<open>IndexError\<close>, raised by
  \<^verbatim>\<open>get_total_posts\<close> before the test for an empty page is reached.
\<close>

theorem pagination_empty_first_page_counterexample:
  "post_cards (parse_html (example_env (\<lambda>url. Response ''B0'')) ''B0'') = [] \<and>
   collect_posts (example_env (\<lambda>url. Response ''B0'')) ''b'' \<lparr>files = [], requests = []\<rparr> =
     (Inl IndexError, \<lparr>files = [], requests = [''b?o=0'']\<rparr>)"
proof -
  have url: "listing_url ''b'' 0 = ''b?o=0''"
    by (simp add: listing_url_def str_nat.simps digit_char_def)
  have total: "get_total_posts (example_parse ''B0'') = Inl IndexError"
    by (simp add: get_total_posts_def example_parse_def empty_soup_def strip_def is_space_def
        py_split_def)
  have cards: "post_cards (example_parse ''B0'') = []"
    by (simp add: example_parse_def empty_soup_def)
  have env: "http_get (example_env (\<lambda>url. Response ''B0'')) = (\<lambda>url. Response ''B0'')"
    "parse_html (example_env (\<lambda>url. Response ''B0'')) = example_parse"
    by (simp_all add: example_env_def)
  show ?thesis
    by (simp add: collect_posts_def pagination_loop.simps[of _ _ 0] url env total cards)
qed



end
